theory Spec2Isabelle
  imports Main "HOL-Library.Word"
begin

section \<open>The meta index of VAST: data model\<close>

text \<open>
  This theory embeds \<^verbatim>\<open>libvast/src/system/meta_index.cpp\<close>: the state of the meta
  index (\<^verbatim>\<open>meta_index_state\<close>), its three state transitions and the expression-directed
  \<^verbatim>\<open>lookup\<close>. The types the function works on (\<^verbatim>\<open>uuid\<close>, \<^verbatim>\<open>type\<close>, \<^verbatim>\<open>data\<close>,
  \<^verbatim>\<open>expression\<close>, \<^verbatim>\<open>synopsis\<close>, \<^verbatim>\<open>partition_synopsis\<close>) are declared in headers that are
  not part of the sources at hand; they are modelled from the data model of the
  specification and from the way \<^verbatim>\<open>lookup\<close> uses them.
\<close>

subsection \<open>Partition identifiers\<close>

text \<open>
  Modelled from the spec: \<^verbatim>\<open>vast::uuid\<close>, an opaque 128-bit value with a total order.
\<close>

type_synonym uuid = "128 word"

subsection \<open>Types\<close>

text \<open>
  Modelled from the spec: \<^verbatim>\<open>vast::type\<close>, a sum over the variants of section 3 of the
  specification; every type carries a display name (empty when the type has none) and
  a collection of string attributes.
\<close>

datatype vtype = vtype (name: string) (attributes: "string list") (kind: type_kind)
and type_kind =
    none_type
  | bool_type
  | integer_type
  | count_type
  | real_type
  | time_type
  | duration_type
  | string_type
  | pattern_type
  | address_type
  | subnet_type
  | port_type
  | enumeration_type "string list"
  | list_type vtype
  | map_type vtype vtype
  | record_type "(string \<times> vtype) list"

text \<open>
  Modelled from the spec: \<^verbatim>\<open>vast::type{t}.attributes({})\<close>, the type stripped of its
  attributes: a copy of \<open>t\<close> whose attributes are replaced by none.
\<close>

definition strip_attributes :: "vtype \<Rightarrow> vtype" where
  "strip_attributes t = vtype (name t) [] (kind t)"

text \<open>
  Modelled from the spec: \<^verbatim>\<open>has_attribute(t, key)\<close>, whether the attributes of the type
  contain the key.
\<close>

definition has_attribute :: "vtype \<Rightarrow> string \<Rightarrow> bool" where
  "has_attribute t key = (key \<in> set (attributes t))"

subsection \<open>Data and relational operators\<close>

text \<open>
  Modelled from the spec: \<^verbatim>\<open>vast::data\<close>, the tagged union of values. The lookup only
  inspects whether a datum holds a string; every other alternative is passed on
  unchanged to \<^verbatim>\<open>evaluate\<close> and to the synopses. A real number is the 64 bits of
  its representation.
\<close>

datatype data =
    d_none
  | d_bool bool
  | d_integer int
  | d_count nat
  | d_real "64 word"
  | d_time int
  | d_duration int
  | d_string string
  | d_pattern string
  | d_address "128 word"
  | d_subnet "128 word" nat
  | d_port nat
  | d_enumeration nat
  | d_list "data list"
  | d_map "(data \<times> data) list"
  | d_record "(string \<times> data) list"

text \<open>\<^verbatim>\<open>caf::get_if<std::string>(&d)\<close>: the string a datum holds, if it holds one.\<close>

fun get_if_string :: "data \<Rightarrow> string option" where
  "get_if_string (d_string s) = Some s"
| "get_if_string _ = None"

text \<open>
  Modelled from the spec: \<^verbatim>\<open>make_view\<close>. A view is a non-owning projection of a datum;
  it carries the same value.
\<close>

definition make_view :: "data \<Rightarrow> data" where
  "make_view d = d"

text \<open>
  Modelled from the spec: \<^verbatim>\<open>relational_operator\<close>, the ten operators of section 3 of
  the specification, and \<^verbatim>\<open>is_negated\<close>, true of \<open>!=\<close>, \<open>!in\<close> and \<open>!match\<close>.
\<close>

datatype relational_operator =
    op_equal | op_not_equal | op_less | op_less_equal | op_greater | op_greater_equal
  | op_in | op_not_in | op_match | op_not_match

fun is_negated :: "relational_operator \<Rightarrow> bool" where
  "is_negated op_not_equal = True"
| "is_negated op_not_in = True"
| "is_negated op_not_match = True"
| "is_negated _ = False"

subsection \<open>Expressions\<close>

text \<open>
  Modelled from the spec: the expression tree of \<^verbatim>\<open>vast/expression.hpp\<close>. A meta
  extractor is of kind type or of kind field. The two sides of a predicate are
  operands, one of the four extractors or a datum: the lookup dispatches on both sides
  (\<^verbatim>\<open>caf::visit(extract_expr, x.lhs, x.rhs)\<close>) and asserts that the right-hand side
  holds a datum where it needs one. What a data extractor carries is of no concern to
  the lookup. The empty expression is \<^verbatim>\<open>caf::none_t\<close>.
\<close>

datatype meta_kind = meta_type | meta_field

datatype operand =
    meta_extractor meta_kind
  | field_extractor string
  | type_extractor vtype
  | data_extractor vtype "nat list"
  | data_operand data

datatype predicate = predicate (lhs: operand) (op: relational_operator) (rhs: operand)

datatype expression =
    none_t
  | conjunction "expression list"
  | disjunction "expression list"
  | negation expression
  | predicate_expr predicate

subsection \<open>Synopses and the state\<close>

text \<open>
  Modelled from the spec: \<^verbatim>\<open>vast::synopsis\<close>, an object with one virtual method the
  lookup calls, \<^verbatim>\<open>lookup(op, view) -> optional<bool>\<close>; it is modelled by that method.
  A \<^verbatim>\<open>synopsis_ptr\<close> may be null, hence \<open>synopsis option\<close>.
\<close>

type_synonym synopsis = "relational_operator \<Rightarrow> data \<Rightarrow> bool option"

text \<open>
  Modelled from the spec: \<^verbatim>\<open>qualified_record_field\<close>, the key of a field synopsis. It
  carries the layout name, the fully-qualified name (\<^verbatim>\<open>fqn()\<close>) and the type of the
  field.
\<close>

record qualified_record_field =
  layout_name :: string
  fqn :: string
  ftype :: vtype

text \<open>
  Modelled from the spec: \<^verbatim>\<open>partition_synopsis\<close> with its two maps. The lookup
  iterates over \<^verbatim>\<open>field_synopses_\<close>, so it is a list of entries in iteration order;
  \<^verbatim>\<open>type_synopses_\<close> is only searched with \<^verbatim>\<open>find\<close>, so it is a map. (The members
  lose their trailing underscore, which a name cannot end with here.)
\<close>

record partition_synopsis =
  field_synopses :: "(qualified_record_field \<times> synopsis option) list"
  type_synopses :: "vtype \<rightharpoonup> synopsis option"

text \<open>
  Modelled from the spec: the member \<^verbatim>\<open>synopses\<close> of \<^verbatim>\<open>meta_index_state\<close>, which maps
  partition ids to partition synopses. The lookup iterates over it in the container's
  order and sorts afterwards, so the model keeps the entries as a list in iteration
  order. The keys of a map are unique: the states of the meta index are the
  well-formed ones, \<open>wf_state\<close>.
\<close>

record meta_index_state =
  synopses :: "(uuid \<times> partition_synopsis) list"

definition partition_ids :: "meta_index_state \<Rightarrow> uuid list" where
  "partition_ids st = map fst (synopses st)"

definition wf_state :: "meta_index_state \<Rightarrow> bool" where
  "wf_state st = distinct (partition_ids st)"

subsection \<open>State transitions\<close>

text \<open>\<^verbatim>\<open>meta_index_state::erase\<close>: \<^verbatim>\<open>synopses.erase(partition)\<close>.\<close>

definition erase :: "meta_index_state \<Rightarrow> uuid \<Rightarrow> meta_index_state" where
  "erase st part = st\<lparr>synopses := filter (\<lambda>e. fst e \<noteq> part) (synopses st)\<rparr>"

text \<open>
  \<^verbatim>\<open>meta_index_state::merge\<close>: \<^verbatim>\<open>synopses[partition] = std::move(ps)\<close>. The value of an
  existing key is replaced, a new key gets a new entry.
\<close>

fun assign :: "(uuid \<times> partition_synopsis) list \<Rightarrow> uuid \<Rightarrow> partition_synopsis
    \<Rightarrow> (uuid \<times> partition_synopsis) list" where
  "assign [] k v = [(k, v)]"
| "assign ((k', v') # es) k v = (if k' = k then (k, v) # es else (k', v') # assign es k v)"

definition merge :: "meta_index_state \<Rightarrow> uuid \<Rightarrow> partition_synopsis \<Rightarrow> meta_index_state" where
  "merge st part ps = st\<lparr>synopses := assign (synopses st) part ps\<rparr>"

definition empty_state :: meta_index_state where
  "empty_state = \<lparr>synopses = []\<rparr>"

section \<open>Helpers of the lookup\<close>

subsection \<open>String and set operations\<close>

text \<open>
  Modelled from the spec: \<^verbatim>\<open>detail::ends_with(s, e)\<close> from
  \<^verbatim>\<open>vast/detail/string.hpp\<close>, whether the string \<open>s\<close> ends with \<open>e\<close>.
\<close>

definition ends_with :: "string \<Rightarrow> string \<Rightarrow> bool" where
  "ends_with s e = (length e \<le> length s \<and> drop (length s - length e) s = e)"

text \<open>
  Modelled from the spec: \<^verbatim>\<open>detail::inplace_intersect\<close>, the in-place sorted
  intersection, and \<^verbatim>\<open>detail::inplace_unify\<close>, the in-place sorted union, both from
  \<^verbatim>\<open>vast/detail/set_operations.hpp\<close>. They are the linear passes over two sorted
  ranges of the standard library: \<^verbatim>\<open>std::set_intersection\<close>, and
  \<^verbatim>\<open>std::inplace_merge\<close> followed by \<^verbatim>\<open>std::unique\<close>. They are templates over
  the collection, so the element type is any linear order.
\<close>

fun inplace_intersect :: "'a::linorder list \<Rightarrow> 'a list \<Rightarrow> 'a list" where
  "inplace_intersect [] ys = []"
| "inplace_intersect (x # xs) [] = []"
| "inplace_intersect (x # xs) (y # ys) =
     (if x < y then inplace_intersect xs (y # ys)
      else if y < x then inplace_intersect (x # xs) ys
      else x # inplace_intersect xs ys)"

fun inplace_merge :: "'a::linorder list \<Rightarrow> 'a list \<Rightarrow> 'a list" where
  "inplace_merge [] ys = ys"
| "inplace_merge (x # xs) [] = x # xs"
| "inplace_merge (x # xs) (y # ys) =
     (if y < x then y # inplace_merge (x # xs) ys
      else x # inplace_merge xs (y # ys))"

fun unique :: "'a list \<Rightarrow> 'a list" where
  "unique [] = []"
| "unique [x] = [x]"
| "unique (x # y # zs) = (if x = y then unique (y # zs) else x # unique (y # zs))"

definition inplace_unify :: "'a::linorder list \<Rightarrow> 'a list \<Rightarrow> 'a list" where
  "inplace_unify xs ys = unique (inplace_merge xs ys)"

subsection \<open>What the lookup takes from its environment\<close>

text \<open>
  Three things the lookup depends on are defined outside the sources at hand and are
  parameters of the model:
  \<^item> whether \<^verbatim>\<open>VAST_ASSERT\<close> is compiled in (a failing assertion aborts) or
    compiled out (the macro does nothing);
  \<^item> \<^verbatim>\<open>evaluate(lhs, op, rhs)\<close>, the evaluation of a relational operator on two data;
  \<^item> \<^verbatim>\<open>operator==\<close> on types.
\<close>

record deps =
  assertions :: bool
  evaluate :: "data \<Rightarrow> relational_operator \<Rightarrow> data \<Rightarrow> bool"
  type_equal :: "vtype \<Rightarrow> vtype \<Rightarrow> bool"

text \<open>The assertions of the lookup, by the line of the source they stand on.\<close>

datatype assertion =
    expr_not_none             \<comment> \<open>line 56\<close>
  | conjunction_not_empty     \<comment> \<open>line 81\<close>
  | intersection_is_sorted    \<comment> \<open>line 90\<close>
  | disjunct_is_sorted        \<comment> \<open>line 98\<close>
  | union_is_sorted           \<comment> \<open>line 102\<close>
  | rhs_holds_data            \<comment> \<open>line 120\<close>
  | type_name_not_empty       \<comment> \<open>line 230\<close>
  | invalid_expression        \<comment> \<open>line 262\<close>

text \<open>
  A lookup that does not return a list has either aborted on an assertion or, with
  assertions compiled out, left defined behaviour (dereferencing \<^verbatim>\<open>begin()\<close> of an
  empty conjunction, \<^verbatim>\<open>caf::get\<close> on the wrong alternative).
\<close>

datatype error = assertion_failed assertion | undefined_behaviour

text \<open>
  The messages of \<^verbatim>\<open>VAST_WARN\<close> and \<^verbatim>\<open>VAST_ERROR\<close>. The debug and trace messages
  are not part of the model.
\<close>

datatype diagnostic =
    warn_field_meta_query_string_only         \<comment> \<open>line 192\<close>
  | warn_cannot_process_attribute_extractor   \<comment> \<open>line 217\<close>
  | warn_cannot_process_predicate predicate   \<comment> \<open>line 252\<close>
  | error_empty_expression                    \<comment> \<open>line 260\<close>

text \<open>The outcome of a lookup: what was logged, and the list returned unless it failed.\<close>

type_synonym outcome = "diagnostic list \<times> (error + uuid list)"

text \<open>
  \<^verbatim>\<open>all_partitions()\<close>: every key of \<^verbatim>\<open>synopses\<close>, sorted. The vector it memoises is
  local to one call of \<^verbatim>\<open>lookup\<close> and is computed at most once there.
\<close>

definition all_partitions :: "meta_index_state \<Rightarrow> uuid list" where
  "all_partitions st = sort (map fst (synopses st))"

section \<open>The lookup\<close>

subsection \<open>Searching the synopses of matching fields\<close>

text \<open>
  The test \<^verbatim>\<open>!opt || *opt\<close> on the answer \<^verbatim>\<open>opt\<close> of a synopsis: only the answer
  \<open>Some False\<close> rules the partition out.
\<close>

definition consult :: "synopsis \<Rightarrow> relational_operator \<Rightarrow> data \<Rightarrow> bool" where
  "consult syn oper d = (case syn oper (make_view d) of None \<Rightarrow> True | Some b \<Rightarrow> b)"

text \<open>
  The inner loop of \<^verbatim>\<open>search\<close> (lines 124 to 155) over the field synopses of one
  partition. It returns \<open>True\<close> when the loop reaches one of its three
  \<^verbatim>\<open>result.push_back(part_id); break;\<close> and \<open>False\<close> when it runs to the end.
\<close>

fun scan_fields :: "(qualified_record_field \<Rightarrow> bool) \<Rightarrow> partition_synopsis
    \<Rightarrow> relational_operator \<Rightarrow> data
    \<Rightarrow> (qualified_record_field \<times> synopsis option) list \<Rightarrow> bool" where
  "scan_fields matches part_syn oper d [] = False"
| "scan_fields matches part_syn oper d ((field, syn) # rest) =
     (if matches field then
        (let cleaned_type = strip_attributes (ftype field) in
         case syn of
           Some s \<Rightarrow>
             (if consult s oper d then True
              else scan_fields matches part_syn oper d rest)
         | None \<Rightarrow>
             (case type_synopses part_syn cleaned_type of
                Some (Some s) \<Rightarrow>
                  (if consult s oper d then True
                   else scan_fields matches part_syn oper d rest)
              | _ \<Rightarrow> True))
      else scan_fields matches part_syn oper d rest)"

text \<open>
  \<^verbatim>\<open>search(match)\<close> (lines 119 to 163): the partitions the inner loop selects, in
  the order of \<^verbatim>\<open>synopses\<close>, then sorted. It reads the right-hand side of the
  predicate \<^verbatim>\<open>x\<close> of the enclosing scope with \<^verbatim>\<open>caf::get<data>\<close> after asserting that
  it holds a datum.
\<close>

definition search :: "deps \<Rightarrow> meta_index_state \<Rightarrow> predicate
    \<Rightarrow> (qualified_record_field \<Rightarrow> bool) \<Rightarrow> error + uuid list" where
  "search env st x matches =
     (case rhs x of
        data_operand d \<Rightarrow>
          Inr (sort (map fst (filter
            (\<lambda>(part_id, part_syn).
               scan_fields matches part_syn (op x) d (field_synopses part_syn))
            (synopses st))))
      | _ \<Rightarrow>
          Inl (if assertions env then assertion_failed rhs_holds_data
               else undefined_behaviour))"

subsection \<open>Predicates\<close>

text \<open>The four match functions handed to \<^verbatim>\<open>search\<close> (lines 222, 231, 236 and 244).\<close>

definition field_pred :: "string \<Rightarrow> qualified_record_field \<Rightarrow> bool" where
  "field_pred s field = ends_with (fqn field) s"

definition type_name_pred :: "vtype \<Rightarrow> qualified_record_field \<Rightarrow> bool" where
  "type_name_pred t field = (name (ftype field) = name t)"

definition type_equal_pred :: "deps \<Rightarrow> vtype \<Rightarrow> qualified_record_field \<Rightarrow> bool" where
  "type_equal_pred env t field = (type_equal env (ftype field) t \<and> name (ftype field) = [])"

definition timestamp_pred :: "qualified_record_field \<Rightarrow> bool" where
  "timestamp_pred field = has_attribute (ftype field) ''timestamp''"

text \<open>
  The visitor \<^verbatim>\<open>extract_expr\<close> (lines 164 to 256), applied to both sides of the
  predicate \<^verbatim>\<open>x\<close>. The first three overloads take a datum on the right; every other
  pair of operands falls to the last one. A meta extractor is of one of the two kinds,
  so the warning of line 217 is out of reach.
\<close>

fun extract_expr :: "deps \<Rightarrow> meta_index_state \<Rightarrow> predicate \<Rightarrow> operand \<Rightarrow> operand
    \<Rightarrow> outcome" where
  "extract_expr env st x (meta_extractor k) (data_operand d) =
     (if k = meta_type then
        ([], Inr (sort (map fst (filter
           (\<lambda>(part_id, part_syn).
              list_ex (\<lambda>pair. evaluate env (d_string (layout_name (fst pair))) (op x) d)
                (field_synopses part_syn))
           (synopses st)))))
      else if k = meta_field then
        (case get_if_string d of
           None \<Rightarrow> ([warn_field_meta_query_string_only], Inr (sort []))
         | Some s \<Rightarrow>
             ([], Inr (sort (map fst (filter
                (\<lambda>synopsis.
                   (\<not> is_negated (op x))
                   = list_ex (\<lambda>pair. ends_with (fqn (fst pair)) s)
                       (field_synopses (snd synopsis)))
                (synopses st))))))
      else ([warn_cannot_process_attribute_extractor], Inr (all_partitions st)))"
| "extract_expr env st x (field_extractor s) (data_operand d) =
     ([], search env st x (field_pred s))"
| "extract_expr env st x (type_extractor t) (data_operand d) =
     (case (if kind t = none_type then
              (if assertions env \<and> name t = []
               then Inl (assertion_failed type_name_not_empty)
               else search env st x (type_name_pred t))
            else search env st x (type_equal_pred env t)) of
        Inl e \<Rightarrow> ([], Inl e)
      | Inr result \<Rightarrow>
          (if name t = ''timestamp'' then
             (case search env st x timestamp_pred of
                Inl e \<Rightarrow> ([], Inl e)
              | Inr ts \<Rightarrow> ([], Inr (inplace_unify result ts)))
           else ([], Inr result)))"
| "extract_expr env st x _ _ =
     ([warn_cannot_process_predicate x], Inr (all_partitions st))"

subsection \<open>Expressions\<close>

text \<open>
  \<^verbatim>\<open>meta_index_state::lookup\<close> (lines 55 to 273). The loops over the operands of a
  conjunction (lines 85 to 91) and of a disjunction (lines 96 to 103) are the
  functions \<open>conjunction_loop\<close> and \<open>disjunction_loop\<close>; their second argument is the
  vector \<^verbatim>\<open>result\<close> the loop updates. Every call begins with the assertion that the
  expression is not \<^verbatim>\<open>caf::none_t\<close>; with assertions compiled out the visitor reaches
  the last overload, which logs an error and returns all partitions (its own
  assertion, on line 262, stands behind the one of line 56 and is never the first to
  fail). What a failing call has logged stays logged.
\<close>

fun lookup :: "deps \<Rightarrow> meta_index_state \<Rightarrow> expression \<Rightarrow> outcome"
and conjunction_loop :: "deps \<Rightarrow> meta_index_state \<Rightarrow> uuid list \<Rightarrow> expression list \<Rightarrow> outcome"
and disjunction_loop :: "deps \<Rightarrow> meta_index_state \<Rightarrow> uuid list \<Rightarrow> expression list \<Rightarrow> outcome"
where
  "lookup env st none_t =
     (if assertions env then ([], Inl (assertion_failed expr_not_none))
      else ([error_empty_expression], Inr (all_partitions st)))"
| "lookup env st (conjunction []) =
     ([], Inl (if assertions env then assertion_failed conjunction_not_empty
               else undefined_behaviour))"
| "lookup env st (conjunction (i # is)) =
     (case lookup env st i of
        (msgs, Inl e) \<Rightarrow> (msgs, Inl e)
      | (msgs, Inr result) \<Rightarrow>
          (if result \<noteq> [] then
             (case conjunction_loop env st result is of (msgs', r) \<Rightarrow> (msgs @ msgs', r))
           else (msgs, Inr result)))"
| "lookup env st (disjunction x) = disjunction_loop env st [] x"
| "lookup env st (negation e) = ([], Inr (all_partitions st))"
| "lookup env st (predicate_expr x) = extract_expr env st x (lhs x) (rhs x)"
| "conjunction_loop env st result [] = ([], Inr result)"
| "conjunction_loop env st result (i # is) =
     (case lookup env st i of
        (msgs, Inl e) \<Rightarrow> (msgs, Inl e)
      | (msgs, Inr xs) \<Rightarrow>
          (if xs = [] then (msgs, Inr xs)
           else
             (let result' = inplace_intersect result xs in
              if assertions env \<and> \<not> sorted result'
              then (msgs, Inl (assertion_failed intersection_is_sorted))
              else (case conjunction_loop env st result' is of
                      (msgs', r) \<Rightarrow> (msgs @ msgs', r)))))"
| "disjunction_loop env st result [] = ([], Inr result)"
| "disjunction_loop env st result (i # is) =
     (case lookup env st i of
        (msgs, Inl e) \<Rightarrow> (msgs, Inl e)
      | (msgs, Inr xs) \<Rightarrow>
          (if assertions env \<and> \<not> sorted xs
           then (msgs, Inl (assertion_failed disjunct_is_sorted))
           else if length xs = length (synopses st) then (msgs, Inr xs)
           else
             (let result' = inplace_unify result xs in
              if assertions env \<and> \<not> sorted result'
              then (msgs, Inl (assertion_failed union_is_sorted))
              else (case disjunction_loop env st result' is of
                      (msgs', r) \<Rightarrow> (msgs @ msgs', r)))))"

section \<open>Specification-level notions\<close>

text \<open>
  A list of candidates of a state: sorted, free of duplicates, and made of keys of
  \<^verbatim>\<open>synopses\<close>.
\<close>

definition candidates :: "meta_index_state \<Rightarrow> uuid list \<Rightarrow> bool" where
  "candidates st r = (sorted r \<and> distinct r \<and> set r \<subseteq> set (partition_ids st))"

text \<open>Whether a lookup returned a list.\<close>

definition returns :: "outcome \<Rightarrow> bool" where
  "returns out = (case snd out of Inl e \<Rightarrow> False | Inr r \<Rightarrow> True)"

text \<open>
  The expressions the lookup is written for: no empty expression among the operands
  it evaluates, no conjunction without operands, and a name on every type extractor
  that holds no concrete type. The operand of a negation is never evaluated, so
  nothing is asked of it.
\<close>

definition supported_predicate :: "predicate \<Rightarrow> bool" where
  "supported_predicate x =
     (case (lhs x, rhs x) of
        (type_extractor t, data_operand d) \<Rightarrow> \<not> (kind t = none_type \<and> name t = [])
      | _ \<Rightarrow> True)"

fun supported :: "expression \<Rightarrow> bool" where
  "supported none_t = False"
| "supported (conjunction x) = (x \<noteq> [] \<and> (\<forall>e \<in> set x. supported e))"
| "supported (disjunction x) = (\<forall>e \<in> set x. supported e)"
| "supported (negation e) = True"
| "supported (predicate_expr x) = supported_predicate x"

definition result_set :: "outcome \<Rightarrow> uuid set" where
  "result_set out = (case snd out of Inl e \<Rightarrow> {} | Inr r \<Rightarrow> set r)"

text \<open>
  The acceptance of one entry of \<^verbatim>\<open>field_synopses_\<close>, in the words of the
  specification: consult the synopsis of the field if there is one, otherwise the
  synopsis registered for the type of the field without its attributes, otherwise
  accept; a synopsis that is consulted accepts unless it answers \<open>Some False\<close>.
\<close>

definition accepted :: "partition_synopsis \<Rightarrow> relational_operator \<Rightarrow> data
    \<Rightarrow> qualified_record_field \<times> synopsis option \<Rightarrow> bool" where
  "accepted part_syn oper d entry =
     (case snd entry of
        Some syn \<Rightarrow> syn oper d \<noteq> Some False
      | None \<Rightarrow>
          (case type_synopses part_syn (strip_attributes (ftype (fst entry))) of
             Some (Some syn) \<Rightarrow> syn oper d \<noteq> Some False
           | _ \<Rightarrow> True))"

text \<open>
  The fields an extractor on the left of a predicate selects: for a field extractor
  those whose fully-qualified name ends with the given name, for a type extractor
  those of the rule written out in \<open>type_matches\<close>.
\<close>

definition type_matches :: "deps \<Rightarrow> vtype \<Rightarrow> qualified_record_field \<Rightarrow> bool" where
  "type_matches env t field =
     ((if kind t = none_type then name (ftype field) = name t
       else type_equal env (ftype field) t \<and> name (ftype field) = [])
      \<or> (name t = ''timestamp'' \<and> has_attribute (ftype field) ''timestamp''))"

fun field_matches :: "deps \<Rightarrow> operand \<Rightarrow> qualified_record_field \<Rightarrow> bool" where
  "field_matches env (field_extractor s) field = ends_with (fqn field) s"
| "field_matches env (type_extractor t) field = type_matches env t field"
| "field_matches env _ field = False"

text \<open>
  The matching rule of a type extractor as the specification words it: by structure
  and an empty field type name when the queried type has no display name, by name
  when it has one.
\<close>

definition spec_type_matches :: "deps \<Rightarrow> vtype \<Rightarrow> qualified_record_field \<Rightarrow> bool" where
  "spec_type_matches env t field =
     (if name t = [] then type_equal env (ftype field) t \<and> name (ftype field) = []
      else name (ftype field) = name t)"

text \<open>
  Whether partition \<open>p\<close> has an accepted field among those a matching rule selects.
\<close>

definition selects :: "(qualified_record_field \<Rightarrow> bool) \<Rightarrow> meta_index_state
    \<Rightarrow> relational_operator \<Rightarrow> data \<Rightarrow> uuid \<Rightarrow> bool" where
  "selects rule st oper d p =
     list_ex (\<lambda>(part_id, part_syn). part_id = p \<and>
        list_ex (\<lambda>entry. rule (fst entry) \<and> accepted part_syn oper d entry)
          (field_synopses part_syn))
       (synopses st)"

text \<open>
  The ways a lookup may fail to return a list: with assertions compiled in, the
  assertions on the expression itself (it is not empty, a conjunction has an operand,
  a type extractor without a concrete type has a name); with assertions compiled
  out, nothing but undefined behaviour.
\<close>

definition expected_failure :: "deps \<Rightarrow> error \<Rightarrow> bool" where
  "expected_failure env err =
     (if assertions env
      then err \<in> {assertion_failed expr_not_none, assertion_failed conjunction_not_empty,
                  assertion_failed type_name_not_empty}
      else err = undefined_behaviour)"

text \<open>
  The pairs of operands the lookup can process, those of the first three overloads
  of \<^verbatim>\<open>extract_expr\<close>: a meta, field or type extractor on the left and a datum on
  the right. Every other pair is a diagnostic condition.
\<close>

definition processable :: "operand \<Rightarrow> operand \<Rightarrow> bool" where
  "processable l r =
     (case r of
        data_operand d \<Rightarrow>
          (case l of
             meta_extractor k \<Rightarrow> True
           | field_extractor s \<Rightarrow> True
           | type_extractor t \<Rightarrow> True
           | _ \<Rightarrow> False)
      | _ \<Rightarrow> False)"

text \<open>
  The histories of a meta index: merges and erasures applied to the empty state, and
  the ids that are live after a history, those merged and not erased since.
\<close>

datatype operation = Merge uuid partition_synopsis | Erase uuid

fun apply_operation :: "meta_index_state \<Rightarrow> operation \<Rightarrow> meta_index_state" where
  "apply_operation st (Merge p ps) = merge st p ps"
| "apply_operation st (Erase p) = erase st p"

definition run :: "operation list \<Rightarrow> meta_index_state" where
  "run ops = foldl apply_operation empty_state ops"

definition live :: "operation list \<Rightarrow> uuid list" where
  "live ops =
     foldl (\<lambda>ids operation.
              case operation of Merge p ps \<Rightarrow> List.insert p ids | Erase p \<Rightarrow> removeAll p ids)
       [] ops"

section \<open>Example data\<close>

text \<open>
  Two synopses in the manner of section 4.D of the specification: one that knows the
  values of a field exactly and answers equality probes, and a range over counts.
\<close>

definition exact_synopsis :: "data list \<Rightarrow> synopsis" where
  "exact_synopsis vs oper d = (if oper = op_equal then Some (d \<in> set vs) else None)"

fun min_max_synopsis :: "nat \<Rightarrow> nat \<Rightarrow> synopsis" where
  "min_max_synopsis lo hi oper (d_count n) =
     (if oper = op_equal then (if n < lo \<or> hi < n then Some False else None)
      else if oper = op_less then
        (if n \<le> lo then Some False else if hi < n then Some True else None)
      else if oper = op_greater then
        (if hi \<le> n then Some False else if n < lo then Some True else None)
      else None)"
| "min_max_synopsis lo hi oper d = None"

text \<open>An evaluator that decides equality and inequality of data and nothing else.\<close>

definition equality_evaluate :: "data \<Rightarrow> relational_operator \<Rightarrow> data \<Rightarrow> bool" where
  "equality_evaluate a oper b =
     (if oper = op_equal then a = b else if oper = op_not_equal then a \<noteq> b else False)"

definition debug_build :: deps where
  "debug_build = \<lparr>assertions = True, evaluate = equality_evaluate, type_equal = (=)\<rparr>"

definition release_build :: deps where
  "release_build = \<lparr>assertions = False, evaluate = equality_evaluate, type_equal = (=)\<rparr>"

definition orig_h :: qualified_record_field where
  "orig_h = \<lparr>layout_name = ''conn'', fqn = ''conn.orig_h'', ftype = vtype [] [] address_type\<rparr>"

definition orig_p :: qualified_record_field where
  "orig_p = \<lparr>layout_name = ''conn'', fqn = ''conn.orig_p'', ftype = vtype [] [] count_type\<rparr>"

definition query :: qualified_record_field where
  "query = \<lparr>layout_name = ''dns'', fqn = ''dns.query'', ftype = vtype [] [] string_type\<rparr>"

definition ts :: qualified_record_field where
  "ts = \<lparr>layout_name = ''dns'', fqn = ''dns.ts'',
          ftype = vtype [] [''timestamp''] time_type\<rparr>"

definition port :: qualified_record_field where
  "port = \<lparr>layout_name = ''conn'', fqn = ''conn.resp_p'',
            ftype = vtype ''port'' [] count_type\<rparr>"

text \<open>
  Four partitions, held in an order that is not the order of their ids: \<open>A\<close> and
  \<open>C\<close> of layout \<open>conn\<close>, \<open>B\<close> of layout \<open>dns\<close>, and \<open>D\<close> without any field. In
  \<open>C\<close> the port field has no synopsis of its own and falls back on the synopsis of
  its type.
\<close>

definition partition_A :: partition_synopsis where
  "partition_A = \<lparr>field_synopses =
       [(orig_h, Some (exact_synopsis [d_address 1, d_address 2])),
        (orig_p, Some (min_max_synopsis 80 443))],
     type_synopses = Map.empty\<rparr>"

definition partition_B :: partition_synopsis where
  "partition_B = \<lparr>field_synopses =
       [(query, Some (exact_synopsis [d_string ''example.com''])), (ts, None)],
     type_synopses = Map.empty\<rparr>"

definition partition_C :: partition_synopsis where
  "partition_C = \<lparr>field_synopses =
       [(orig_h, Some (exact_synopsis [d_address 3])), (orig_p, None), (port, None)],
     type_synopses = [vtype [] [] count_type \<mapsto> Some (min_max_synopsis 53 53)]\<rparr>"

definition partition_D :: partition_synopsis where
  "partition_D = \<lparr>field_synopses = [], type_synopses = Map.empty\<rparr>"

definition example_state :: meta_index_state where
  "example_state = \<lparr>synopses =
     [(12, partition_C), (10, partition_A), (13, partition_D), (11, partition_B)]\<rparr>"


section \<open>Properties of the set operations\<close>

lemma set_inplace_intersect_subset: "set (inplace_intersect xs ys) \<subseteq> set xs \<inter> set ys"
  by (induction xs ys rule: inplace_intersect.induct) auto

lemma in_inplace_intersect_left: "z \<in> set (inplace_intersect xs ys) \<Longrightarrow> z \<in> set xs"
  using set_inplace_intersect_subset [of xs ys] by blast

lemma in_inplace_intersect:
  "sorted xs \<Longrightarrow> sorted ys \<Longrightarrow> z \<in> set xs \<Longrightarrow> z \<in> set ys
    \<Longrightarrow> z \<in> set (inplace_intersect xs ys)"
  by (induction xs ys rule: inplace_intersect.induct) auto

lemma set_inplace_intersect:
  "sorted xs \<Longrightarrow> sorted ys \<Longrightarrow> set (inplace_intersect xs ys) = set xs \<inter> set ys"
  using set_inplace_intersect_subset [of xs ys] in_inplace_intersect [of xs ys]
  by blast

lemma sorted_inplace_intersect: "sorted xs \<Longrightarrow> sorted (inplace_intersect xs ys)"
  by (induction xs ys rule: inplace_intersect.induct)
     (auto dest: in_inplace_intersect_left)

lemma distinct_inplace_intersect: "distinct xs \<Longrightarrow> distinct (inplace_intersect xs ys)"
  by (induction xs ys rule: inplace_intersect.induct)
     (auto dest: in_inplace_intersect_left)

lemma set_inplace_merge: "set (inplace_merge xs ys) = set xs \<union> set ys"
  by (induction xs ys rule: inplace_merge.induct) auto

lemma sorted_inplace_merge: "sorted xs \<Longrightarrow> sorted ys \<Longrightarrow> sorted (inplace_merge xs ys)"
  by (induction xs ys rule: inplace_merge.induct) (auto simp: set_inplace_merge)

lemma set_unique: "set (unique xs) = set xs"
  by (induction xs rule: unique.induct) auto

lemma sorted_unique: "sorted xs \<Longrightarrow> sorted (unique xs)"
  by (induction xs rule: unique.induct) (auto simp: set_unique)

lemma distinct_unique: "sorted xs \<Longrightarrow> distinct (unique xs)"
  by (induction xs rule: unique.induct) (auto simp: set_unique)

lemma set_inplace_unify: "set (inplace_unify xs ys) = set xs \<union> set ys"
  by (simp add: inplace_unify_def set_unique set_inplace_merge)

lemma sorted_inplace_unify: "sorted xs \<Longrightarrow> sorted ys \<Longrightarrow> sorted (inplace_unify xs ys)"
  by (simp add: inplace_unify_def sorted_unique sorted_inplace_merge)

lemma distinct_inplace_unify: "sorted xs \<Longrightarrow> sorted ys \<Longrightarrow> distinct (inplace_unify xs ys)"
  by (simp add: inplace_unify_def distinct_unique sorted_inplace_merge)

section \<open>Lists of candidates\<close>

lemma candidates_Nil: "candidates st []"
  by (simp add: candidates_def)

lemma candidates_selected:
  "wf_state st \<Longrightarrow> candidates st (sort (map fst (filter P (synopses st))))"
  by (auto simp: candidates_def wf_state_def partition_ids_def distinct_map_filter)

lemma candidates_all_partitions: "wf_state st \<Longrightarrow> candidates st (all_partitions st)"
  by (simp add: candidates_def wf_state_def partition_ids_def all_partitions_def)

lemma candidates_intersect:
  "candidates st xs \<Longrightarrow> candidates st (inplace_intersect xs ys)"
  using set_inplace_intersect_subset [of xs ys]
  by (auto simp: candidates_def sorted_inplace_intersect distinct_inplace_intersect)

lemma candidates_unify:
  "candidates st xs \<Longrightarrow> candidates st ys \<Longrightarrow> candidates st (inplace_unify xs ys)"
  by (simp add: candidates_def sorted_inplace_unify distinct_inplace_unify set_inplace_unify)

lemma candidates_search:
  "wf_state st \<Longrightarrow> search env st x m = Inr r \<Longrightarrow> candidates st r"
  by (auto simp: search_def candidates_selected split: operand.splits)

lemma candidates_extract_expr:
  assumes "wf_state st" and "extract_expr env st x l r = (msgs, Inr res)"
  shows "candidates st res"
proof (cases r)
  case (data_operand d)
  show ?thesis
  proof (cases l)
    case (meta_extractor k)
    with data_operand assms show ?thesis
      by (cases k) (auto simp: candidates_selected candidates_Nil split: option.splits)
  next
    case (field_extractor s)
    with data_operand assms show ?thesis
      by (auto dest: candidates_search)
  next
    case (type_extractor t)
    with data_operand assms show ?thesis
      by (auto simp: candidates_search [OF assms(1)]
            intro!: candidates_unify split: if_splits sum.splits)
  next
    case (data_extractor t c)
    with data_operand assms show ?thesis
      by (auto simp: candidates_all_partitions)
  next
    case (data_operand d')
    with \<open>r = data_operand d\<close> assms show ?thesis
      by (auto simp: candidates_all_partitions)
  qed
qed (use assms in \<open>cases l; auto simp: candidates_all_partitions\<close>)+

lemma candidates_lookup_loops:
  assumes wf: "wf_state st"
  shows "lookup env st e = (msgs, Inr r) \<Longrightarrow> candidates st r"
    and "candidates st acc \<Longrightarrow> conjunction_loop env st acc es = (msgs, Inr r) \<Longrightarrow> candidates st r"
    and "candidates st acc \<Longrightarrow> disjunction_loop env st acc es = (msgs, Inr r) \<Longrightarrow> candidates st r"
  using wf
proof (induction env st e and env st acc es and env st acc es
    arbitrary: msgs r and msgs r and msgs r
    rule: lookup_conjunction_loop_disjunction_loop.induct)
  case (1 env st)
  then show ?case by (auto simp: candidates_all_partitions split: if_splits)
next
  case (2 env st)
  then show ?case by simp
next
  case (3 env st i "is")
  obtain m1 r1 where l1: "lookup env st i = (m1, r1)" by (cases "lookup env st i")
  show ?case
  proof (cases r1)
    case (Inl e)
    with l1 "3.prems" show ?thesis by simp
  next
    case (Inr res)
    with l1 "3.IH"(1) "3.prems" have c: "candidates st res" by simp
    show ?thesis
    proof (cases "res = []")
      case True
      with l1 Inr "3.prems" c show ?thesis by auto
    next
      case False
      obtain m2 r2 where l2: "conjunction_loop env st res is = (m2, r2)"
        by (cases "conjunction_loop env st res is")
      with l1 Inr False "3.prems" have "r2 = Inr r" by simp
      with "3.IH"(2) [OF l1 [symmetric] Inr False c] l2 "3.prems"(2) show ?thesis by simp
    qed
  qed
next
  case (4 env st x)
  then show ?case by (simp add: candidates_Nil)
next
  case (5 env st e)
  then show ?case by (auto simp: candidates_all_partitions)
next
  case (6 env st x)
  then show ?case by (simp add: candidates_extract_expr)
next
  case (7 env st result)
  then show ?case by simp
next
  case (8 env st result i "is")
  obtain m1 r1 where l1: "lookup env st i = (m1, r1)" by (cases "lookup env st i")
  show ?case
  proof (cases r1)
    case (Inl e)
    with l1 "8.prems" show ?thesis by simp
  next
    case (Inr xs)
    with l1 "8.IH"(1) "8.prems" have c: "candidates st xs" by simp
    show ?thesis
    proof (cases "xs = []")
      case True
      with l1 Inr "8.prems" c show ?thesis by auto
    next
      case False
      let ?res = "inplace_intersect result xs"
      have c': "candidates st ?res" using "8.prems"(1) by (rule candidates_intersect)
      then have srt: "\<not> (assertions env \<and> \<not> sorted ?res)" by (simp add: candidates_def)
      obtain m2 r2 where l2: "conjunction_loop env st ?res is = (m2, r2)"
        by (cases "conjunction_loop env st ?res is")
      with l1 Inr False srt "8.prems"(2) have "r2 = Inr r" by (auto simp: Let_def)
      with "8.IH"(2) [OF l1 [symmetric] Inr False refl srt c'] l2 "8.prems"(3) show ?thesis by simp
    qed
  qed
next
  case (9 env st result)
  then show ?case by simp
next
  case (10 env st result i "is")
  obtain m1 r1 where l1: "lookup env st i = (m1, r1)" by (cases "lookup env st i")
  show ?case
  proof (cases r1)
    case (Inl e)
    with l1 "10.prems" show ?thesis by simp
  next
    case (Inr xs)
    with l1 "10.IH"(1) "10.prems" have c: "candidates st xs" by simp
    then have sx: "\<not> (assertions env \<and> \<not> sorted xs)" by (simp add: candidates_def)
    show ?thesis
    proof (cases "length xs = length (synopses st)")
      case True
      with l1 Inr "10.prems" c sx show ?thesis by auto
    next
      case False
      let ?res = "inplace_unify result xs"
      have c': "candidates st ?res" using "10.prems"(1) c by (rule candidates_unify)
      then have srt: "\<not> (assertions env \<and> \<not> sorted ?res)" by (simp add: candidates_def)
      obtain m2 r2 where l2: "disjunction_loop env st ?res is = (m2, r2)"
        by (cases "disjunction_loop env st ?res is")
      with l1 Inr False sx srt "10.prems"(2) have "r2 = Inr r" by (auto simp: Let_def)
      with "10.IH"(2) [OF l1 [symmetric] Inr sx False refl srt c'] l2 "10.prems"(3) show ?thesis by simp
    qed
  qed
qed

section \<open>The lookup returns on supported expressions\<close>

lemma returns_Inr [simp]: "returns (m, Inr r)"
  by (simp add: returns_def)

lemma returns_Inl [simp]: "\<not> returns (m, Inl e)"
  by (simp add: returns_def)

lemma returnsE: "returns out \<Longrightarrow> (\<And>m r. out = (m, Inr r) \<Longrightarrow> thesis) \<Longrightarrow> thesis"
  by (cases out; cases "snd out") (auto simp: returns_def)

lemma search_data: "rhs x = data_operand d \<Longrightarrow> \<exists>r. search env st x m = Inr r"
  by (simp add: search_def)

lemma returns_extract_expr:
  assumes "supported_predicate x"
  shows "returns (extract_expr env st x (lhs x) (rhs x))"
proof (cases "rhs x")
  case (data_operand d)
  show ?thesis
  proof (cases "lhs x")
    case (meta_extractor k)
    with data_operand show ?thesis
      by (cases k) (auto split: option.splits)
  next
    case (field_extractor s)
    with data_operand show ?thesis
      by (simp add: search_def)
  next
    case (type_extractor t)
    with data_operand assms show ?thesis
      by (auto simp: search_def supported_predicate_def)
  next
    case (data_extractor t c)
    with data_operand show ?thesis by simp
  next
    case (data_operand d')
    with \<open>rhs x = data_operand d\<close> show ?thesis by simp
  qed
qed (cases "lhs x"; simp)+

lemma returns_lookup_loops:
  assumes wf: "wf_state st"
  shows "supported e \<Longrightarrow> returns (lookup env st e)"
    and "candidates st acc \<Longrightarrow> \<forall>e \<in> set es. supported e
          \<Longrightarrow> returns (conjunction_loop env st acc es)"
    and "candidates st acc \<Longrightarrow> \<forall>e \<in> set es. supported e
          \<Longrightarrow> returns (disjunction_loop env st acc es)"
  using wf
proof (induction env st e and env st acc es and env st acc es
    rule: lookup_conjunction_loop_disjunction_loop.induct)
  case (1 env st)
  then show ?case by simp
next
  case (2 env st)
  then show ?case by simp
next
  case (3 env st i "is")
  from "3.prems" have si: "supported i" and sis: "\<forall>e \<in> set is. supported e" by simp_all
  from "3.IH"(1) [OF si "3.prems"(2)] obtain m1 res where l1: "lookup env st i = (m1, Inr res)"
    by (rule returnsE)
  with "3.prems"(2) have c: "candidates st res" by (simp add: candidates_lookup_loops(1))
  show ?case
  proof (cases "res = []")
    case True
    with l1 show ?thesis by simp
  next
    case False
    from "3.IH"(2) [OF l1 [symmetric] refl False c sis "3.prems"(2)]
    obtain m2 r2 where "conjunction_loop env st res is = (m2, Inr r2)" by (rule returnsE)
    with l1 False show ?thesis by simp
  qed
next
  case (4 env st x)
  then show ?case by (simp add: candidates_Nil)
next
  case (5 env st e)
  then show ?case by simp
next
  case (6 env st x)
  then show ?case by (simp add: returns_extract_expr)
next
  case (7 env st result)
  then show ?case by simp
next
  case (8 env st result i "is")
  from "8.prems" have si: "supported i" and sis: "\<forall>e \<in> set is. supported e" by simp_all
  from "8.IH"(1) [OF si "8.prems"(3)] obtain m1 xs where l1: "lookup env st i = (m1, Inr xs)"
    by (rule returnsE)
  show ?case
  proof (cases "xs = []")
    case True
    with l1 show ?thesis by simp
  next
    case False
    let ?res = "inplace_intersect result xs"
    have c': "candidates st ?res" using "8.prems"(1) by (rule candidates_intersect)
    then have srt: "\<not> (assertions env \<and> \<not> sorted ?res)" by (simp add: candidates_def)
    from "8.IH"(2) [OF l1 [symmetric] refl False refl srt c' sis "8.prems"(3)]
    obtain m2 r2 where "conjunction_loop env st ?res is = (m2, Inr r2)" by (rule returnsE)
    with l1 False srt show ?thesis by (auto simp: Let_def)
  qed
next
  case (9 env st result)
  then show ?case by simp
next
  case (10 env st result i "is")
  from "10.prems" have si: "supported i" and sis: "\<forall>e \<in> set is. supported e" by simp_all
  from "10.IH"(1) [OF si "10.prems"(3)] obtain m1 xs where l1: "lookup env st i = (m1, Inr xs)"
    by (rule returnsE)
  with "10.prems"(3) have c: "candidates st xs" by (simp add: candidates_lookup_loops(1))
  then have sx: "\<not> (assertions env \<and> \<not> sorted xs)" by (simp add: candidates_def)
  show ?case
  proof (cases "length xs = length (synopses st)")
    case True
    with l1 sx show ?thesis by auto
  next
    case False
    let ?res = "inplace_unify result xs"
    have c': "candidates st ?res" using "10.prems"(1) c by (rule candidates_unify)
    then have srt: "\<not> (assertions env \<and> \<not> sorted ?res)" by (simp add: candidates_def)
    from "10.IH"(2) [OF l1 [symmetric] refl sx False refl srt c' sis "10.prems"(3)]
    obtain m2 r2 where "disjunction_loop env st ?res is = (m2, Inr r2)" by (rule returnsE)
    with l1 False sx srt show ?thesis by (auto simp: Let_def)
  qed
qed

section \<open>What a search selects\<close>

lemma consult_iff: "consult s oper d \<longleftrightarrow> s oper d \<noteq> Some False"
  by (cases "s oper d") (simp_all add: consult_def make_view_def)

lemma accepted_Some: "accepted ps oper d (f, Some s) = consult s oper d"
  by (simp add: accepted_def consult_iff)

lemma accepted_None:
  "accepted ps oper d (f, None) =
    (case type_synopses ps (strip_attributes (ftype f)) of
       Some (Some s) \<Rightarrow> consult s oper d
     | _ \<Rightarrow> True)"
  by (simp add: accepted_def consult_iff split: option.splits)

lemma scan_fields_iff:
  "scan_fields m ps oper d entries
    \<longleftrightarrow> (\<exists>entry \<in> set entries. m (fst entry) \<and> accepted ps oper d entry)"
proof (induction entries)
  case Nil
  show ?case by simp
next
  case (Cons entry rest)
  obtain f syn where entry: "entry = (f, syn)" by (cases entry)
  show ?case
  proof (cases "m f")
    case False
    with entry Cons.IH show ?thesis by simp
  next
    case True
    show ?thesis
    proof (cases syn)
      case (Some s)
      with entry True Cons.IH show ?thesis by (simp add: accepted_Some)
    next
      case None
      show ?thesis
      proof (cases "type_synopses ps (strip_attributes (ftype f))")
        case no_entry: None
        with entry True None show ?thesis by (simp add: accepted_None)
      next
        case (Some found)
        with entry True None Cons.IH show ?thesis
          by (cases found) (simp_all add: accepted_None)
      qed
    qed
  qed
qed

lemma in_sort_selected:
  "p \<in> set (sort (map fst (filter P xs))) \<longleftrightarrow> (\<exists>ps. (p, ps) \<in> set xs \<and> P (p, ps))"
  by force

lemma selects_iff:
  "selects rule st oper d p \<longleftrightarrow>
    (\<exists>ps. (p, ps) \<in> set (synopses st) \<and>
       (\<exists>entry \<in> set (field_synopses ps). rule (fst entry) \<and> accepted ps oper d entry))"
  by (auto simp: selects_def list_ex_iff)

lemma search_selects:
  assumes "rhs x = data_operand d"
  shows "\<exists>r. search env st x m = Inr r \<and> sorted r \<and> (\<forall>p. p \<in> set r \<longleftrightarrow> selects m st (op x) d p)"
proof -
  let ?r = "sort (map fst (filter
     (\<lambda>(part_id, part_syn). scan_fields m part_syn (op x) d (field_synopses part_syn))
     (synopses st)))"
  have "search env st x m = Inr ?r"
    using assms by (simp add: search_def)
  moreover have "sorted ?r" by simp
  moreover have "p \<in> set ?r \<longleftrightarrow> selects m st (op x) d p" for p
    unfolding in_sort_selected selects_iff by (simp add: scan_fields_iff)
  ultimately show ?thesis by blast
qed

lemma selects_disj:
  "selects (\<lambda>f. a f \<or> b f) st oper d p \<longleftrightarrow> selects a st oper d p \<or> selects b st oper d p"
  by (auto simp: selects_iff)

lemma type_matches_unfold:
  "type_matches env t =
     (\<lambda>f. (if kind t = none_type then type_name_pred t f else type_equal_pred env t f)
           \<or> (name t = ''timestamp'' \<and> timestamp_pred f))"
  by (auto simp: type_matches_def type_name_pred_def type_equal_pred_def timestamp_pred_def
      fun_eq_iff)

lemma selects_False: "\<not> selects (\<lambda>f. a f \<and> False) st oper d p"
  by (simp add: selects_iff)

lemma lookup_type_extractor:
  assumes "\<not> (assertions env \<and> kind t = none_type \<and> name t = [])"
  shows "\<exists>r. lookup env st (predicate_expr (predicate (type_extractor t) oper (data_operand d)))
            = ([], Inr r) \<and> sorted r
          \<and> (\<forall>p. p \<in> set r \<longleftrightarrow> selects (type_matches env t) st oper d p)"
proof -
  let ?x = "predicate (type_extractor t) oper (data_operand d)"
  let ?m = "if kind t = none_type then type_name_pred t else type_equal_pred env t"
  have rhs: "rhs ?x = data_operand d" by simp
  from search_selects [OF rhs, of env st ?m]
  obtain r1 where r1: "search env st ?x ?m = Inr r1" "sorted r1"
    "\<And>p. p \<in> set r1 \<longleftrightarrow> selects ?m st oper d p" by auto
  from search_selects [OF rhs, of env st timestamp_pred]
  obtain r2 where r2: "search env st ?x timestamp_pred = Inr r2" "sorted r2"
    "\<And>p. p \<in> set r2 \<longleftrightarrow> selects timestamp_pred st oper d p" by auto
  have first: "(if kind t = none_type then
              (if assertions env \<and> name t = []
               then Inl (assertion_failed type_name_not_empty)
               else search env st ?x (type_name_pred t))
            else search env st ?x (type_equal_pred env t)) = Inr r1"
    using assms r1(1) by (cases "kind t = none_type") simp_all
  have m: "type_matches env t = (\<lambda>f. ?m f \<or> (name t = ''timestamp'' \<and> timestamp_pred f))"
    by (simp add: type_matches_unfold fun_eq_iff)
  show ?thesis
  proof (cases "name t = ''timestamp''")
    case True
    have "lookup env st (predicate_expr ?x) = ([], Inr (inplace_unify r1 r2))"
      by (simp add: first r2(1) True del: if_split)
    moreover have "sorted (inplace_unify r1 r2)"
      using r1(2) r2(2) by (rule sorted_inplace_unify)
    moreover have "p \<in> set (inplace_unify r1 r2) \<longleftrightarrow> selects (type_matches env t) st oper d p" for p
      unfolding m selects_disj set_inplace_unify using True r1(3) r2(3) by simp
    ultimately show ?thesis by blast
  next
    case False
    have "lookup env st (predicate_expr ?x) = ([], Inr r1)"
      by (simp add: first False)
    moreover have "p \<in> set r1 \<longleftrightarrow> selects (type_matches env t) st oper d p" for p
      unfolding m using False r1(3) by (simp add: selects_iff)
    ultimately show ?thesis using r1(2) by blast
  qed
qed

lemma lookup_field_extractor:
  "\<exists>r. lookup env st (predicate_expr (predicate (field_extractor s) oper (data_operand d)))
            = ([], Inr r) \<and> sorted r
          \<and> (\<forall>p. p \<in> set r \<longleftrightarrow> selects (field_pred s) st oper d p)"
proof -
  let ?x = "predicate (field_extractor s) oper (data_operand d)"
  have rhs: "rhs ?x = data_operand d" by simp
  from search_selects [OF rhs, of env st "field_pred s"]
  obtain r where r: "search env st ?x (field_pred s) = Inr r" "sorted r"
    "\<And>p. p \<in> set r \<longleftrightarrow> selects (field_pred s) st oper d p" by auto
  have "lookup env st (predicate_expr ?x) = ([], Inr r)"
    by (simp add: r(1))
  with r(2,3) show ?thesis by blast
qed

lemma field_matches_field: "field_matches env (field_extractor s) = field_pred s"
  by (simp add: fun_eq_iff field_pred_def)

lemma field_matches_type: "field_matches env (type_extractor t) = type_matches env t"
  by (simp add: fun_eq_iff)

section \<open>The state under merges and erasures\<close>

lemma keys_assign: "map fst (assign es k v) = (if k \<in> fst ` set es then map fst es else map fst es @ [k])"
  by (induction es k v rule: assign.induct) auto

lemma wf_state_merge: "wf_state st \<Longrightarrow> wf_state (merge st p ps)"
  by (auto simp: wf_state_def partition_ids_def merge_def keys_assign)

lemma wf_state_erase: "wf_state st \<Longrightarrow> wf_state (erase st p)"
  by (simp add: wf_state_def partition_ids_def erase_def distinct_map_filter)

lemma ids_merge: "set (partition_ids (merge st p ps)) = insert p (set (partition_ids st))"
  by (auto simp: partition_ids_def merge_def keys_assign)

lemma ids_erase: "set (partition_ids (erase st p)) = set (partition_ids st) - {p}"
  by (auto simp: partition_ids_def erase_def)

lemma wf_state_empty: "wf_state empty_state"
  by (simp add: wf_state_def partition_ids_def empty_state_def)

lemma history_invariant:
  "wf_state st \<Longrightarrow> set (partition_ids st) = set ids \<Longrightarrow>
    wf_state (foldl apply_operation st ops)
    \<and> set (partition_ids (foldl apply_operation st ops))
        = set (foldl (\<lambda>ids operation.
              case operation of Merge p ps \<Rightarrow> List.insert p ids | Erase p \<Rightarrow> removeAll p ids)
            ids ops)"
proof (induction ops arbitrary: st ids)
  case Nil
  then show ?case by simp
next
  case (Cons operation ops)
  show ?case
  proof (cases operation)
    case (Merge p ps)
    with Cons.prems Cons.IH [of "merge st p ps" "List.insert p ids"] show ?thesis
      by (simp add: wf_state_merge ids_merge)
  next
    case (Erase p)
    with Cons.prems Cons.IH [of "erase st p" "removeAll p ids"] show ?thesis
      by (simp add: wf_state_erase ids_erase)
  qed
qed

lemma ids_empty: "set (partition_ids empty_state) = set []"
  by (simp add: partition_ids_def empty_state_def)

lemma wf_state_run: "wf_state (run ops)"
  using history_invariant [OF wf_state_empty ids_empty, of ops]
  by (simp add: run_def)

lemma ids_run: "set (partition_ids (run ops)) = set (live ops)"
  using history_invariant [OF wf_state_empty ids_empty, of ops]
  by (simp add: run_def live_def)

lemma unique_partition_synopsis:
  "wf_state st \<Longrightarrow> (p, ps) \<in> set (synopses st) \<Longrightarrow> (p, ps') \<in> set (synopses st) \<Longrightarrow> ps = ps'"
  by (auto simp: wf_state_def partition_ids_def dest: eq_key_imp_eq_value)

section \<open>The meta extractors\<close>

lemma lookup_meta_field_other:
  "get_if_string d = None \<Longrightarrow>
     lookup env st (predicate_expr (predicate (meta_extractor meta_field) oper (data_operand d)))
       = ([warn_field_meta_query_string_only], Inr [])"
  by simp

lemma lookup_meta_field_string:
  "\<exists>r. lookup env st
             (predicate_expr (predicate (meta_extractor meta_field) oper (data_operand (d_string s))))
            = ([], Inr r)
          \<and> sorted r
          \<and> (\<forall>p. p \<in> set r \<longleftrightarrow>
                (\<exists>part_syn. (p, part_syn) \<in> set (synopses st) \<and>
                   ((\<not> is_negated oper)
                    = (\<exists>entry \<in> set (field_synopses part_syn). ends_with (fqn (fst entry)) s))))"
proof -
  let ?r = "sort (map fst (filter
              (\<lambda>synopsis. (\<not> is_negated oper)
                  = list_ex (\<lambda>pair. ends_with (fqn (fst pair)) s) (field_synopses (snd synopsis)))
              (synopses st)))"
  have "lookup env st
          (predicate_expr (predicate (meta_extractor meta_field) oper (data_operand (d_string s))))
         = ([], Inr ?r)"
    by simp
  moreover have "sorted ?r" by simp
  moreover have "p \<in> set ?r \<longleftrightarrow>
      (\<exists>part_syn. (p, part_syn) \<in> set (synopses st) \<and>
         ((\<not> is_negated oper)
          = (\<exists>entry \<in> set (field_synopses part_syn). ends_with (fqn (fst entry)) s)))" for p
    unfolding in_sort_selected by (simp add: list_ex_iff)
  ultimately show ?thesis by blast
qed

lemma lookup_meta_type:
  "\<exists>r. lookup env st
             (predicate_expr (predicate (meta_extractor meta_type) oper (data_operand d)))
            = ([], Inr r)
          \<and> sorted r
          \<and> (\<forall>p. p \<in> set r \<longleftrightarrow>
                (\<exists>part_syn. (p, part_syn) \<in> set (synopses st) \<and>
                   (\<exists>entry \<in> set (field_synopses part_syn).
                      evaluate env (d_string (layout_name (fst entry))) oper d)))"
proof -
  let ?r = "sort (map fst (filter
           (\<lambda>(part_id, part_syn).
              list_ex (\<lambda>pair. evaluate env (d_string (layout_name (fst pair))) oper d)
                (field_synopses part_syn))
           (synopses st)))"
  have "lookup env st
          (predicate_expr (predicate (meta_extractor meta_type) oper (data_operand d)))
         = ([], Inr ?r)"
    by simp
  moreover have "sorted ?r" by simp
  moreover have "p \<in> set ?r \<longleftrightarrow>
      (\<exists>part_syn. (p, part_syn) \<in> set (synopses st) \<and>
                   (\<exists>entry \<in> set (field_synopses part_syn).
                      evaluate env (d_string (layout_name (fst entry))) oper d))" for p
    unfolding in_sort_selected by (simp add: list_ex_iff)
  ultimately show ?thesis by blast
qed

lemma not_selects_empty:
  assumes "wf_state st" and "(p, part_syn) \<in> set (synopses st)"
    and "field_synopses part_syn = []"
  shows "\<not> selects rule st oper d p"
proof
  assume "selects rule st oper d p"
  then obtain ps where ps: "(p, ps) \<in> set (synopses st)"
    and ex: "\<exists>entry \<in> set (field_synopses ps). rule (fst entry) \<and> accepted ps oper d entry"
    unfolding selects_iff by blast
  from unique_partition_synopsis [OF assms(1) ps assms(2)] have "ps = part_syn" .
  with ex assms(3) show False by simp
qed

lemma result_set_Inr: "result_set (m, Inr r) = set r"
  by (simp add: result_set_def)

lemma result_set_Inl: "result_set (m, Inl e) = {}"
  by (simp add: result_set_def)

section \<open>The loops over the operands\<close>

lemma unique_distinct: "distinct xs \<Longrightarrow> unique xs = xs"
  by (induction xs rule: unique.induct) auto

lemma inplace_unify_Nil: "distinct xs \<Longrightarrow> inplace_unify [] xs = xs"
  by (simp add: inplace_unify_def unique_distinct)

lemma candidates_full:
  assumes "wf_state st" and "candidates st r" and "length r = length (synopses st)"
  shows "set r = set (partition_ids st)"
proof -
  from assms(2) have sub: "set r \<subseteq> set (partition_ids st)" and d: "distinct r"
    by (simp_all add: candidates_def)
  from d have "card (set r) = length r" by (rule distinct_card)
  moreover from assms(1) have "card (set (partition_ids st)) = length (partition_ids st)"
    unfolding wf_state_def by (rule distinct_card)
  moreover have "length (partition_ids st) = length (synopses st)"
    by (simp add: partition_ids_def)
  ultimately have "card (set r) = card (set (partition_ids st))"
    using assms(3) by simp
  with sub show ?thesis by (simp add: card_subset_eq)
qed

lemma candidates_eq_sorted_list:
  "candidates st r \<Longrightarrow> set r = A \<Longrightarrow> sorted_list_of_set A = r"
  by (auto simp: candidates_def sorted_list_of_set.idem_if_sorted_distinct)

lemma candidates_sorted: "candidates st r \<Longrightarrow> sorted r"
  by (simp add: candidates_def)

lemma candidates_subset: "candidates st r \<Longrightarrow> set r \<subseteq> set (partition_ids st)"
  by (simp add: candidates_def)

lemma disjunction_loop_short_circuit:
  assumes "lookup env st e = (m, Inr r)" and "sorted r" and "length r = length (synopses st)"
  shows "disjunction_loop env st acc (e # es) = (m, Inr r)"
  using assms by simp

lemma disjunction_loop_step:
  assumes "lookup env st e = (m, Inr r)" and "sorted r" and "length r \<noteq> length (synopses st)"
    and "sorted (inplace_unify acc r)"
    and "disjunction_loop env st (inplace_unify acc r) es = (m', out)"
  shows "disjunction_loop env st acc (e # es) = (m @ m', out)"
  using assms by (simp add: Let_def)

lemma conjunction_loop_short_circuit:
  assumes "lookup env st e = (m, Inr [])"
  shows "conjunction_loop env st acc (e # es) = (m, Inr [])"
  using assms by simp

lemma conjunction_loop_step:
  assumes "lookup env st e = (m, Inr r)" and "r \<noteq> []"
    and "sorted (inplace_intersect acc r)"
    and "conjunction_loop env st (inplace_intersect acc r) es = (m', out)"
  shows "conjunction_loop env st acc (e # es) = (m @ m', out)"
  using assms by (simp add: Let_def)

section \<open>The failures of a lookup\<close>

lemma search_no_failure: "rhs x = data_operand d \<Longrightarrow> search env st x m \<noteq> Inl err"
  by (simp add: search_def)

lemma failure_extract_expr:
  assumes "extract_expr env st x (lhs x) (rhs x) = (msgs, Inl err)"
  shows "expected_failure env err"
proof (cases "rhs x")
  case (data_operand d)
  note rhs = this
  show ?thesis
  proof (cases "lhs x")
    case (meta_extractor k)
    with rhs assms show ?thesis
      by (cases k) (auto split: option.splits)
  next
    case (field_extractor s)
    with rhs assms search_no_failure [OF rhs, of env st "field_pred s" err] show ?thesis
      by simp
  next
    case (type_extractor t)
    from search_no_failure [OF rhs, of env st _ err] rhs type_extractor assms
    show ?thesis
      by (auto simp: expected_failure_def split: if_splits sum.splits)
  next
    case (data_extractor t c)
    with rhs assms show ?thesis by simp
  next
    case (data_operand d')
    with rhs assms show ?thesis by simp
  qed
qed (use assms in \<open>cases "lhs x"; simp\<close>)+

lemma failure_lookup_loops:
  assumes wf: "wf_state st"
  shows "lookup env st e = (msgs, Inl err) \<Longrightarrow> expected_failure env err"
    and "candidates st acc \<Longrightarrow> conjunction_loop env st acc es = (msgs, Inl err)
          \<Longrightarrow> expected_failure env err"
    and "candidates st acc \<Longrightarrow> disjunction_loop env st acc es = (msgs, Inl err)
          \<Longrightarrow> expected_failure env err"
  using wf
proof (induction env st e and env st acc es and env st acc es
    arbitrary: msgs and msgs and msgs
    rule: lookup_conjunction_loop_disjunction_loop.induct)
  case (1 env st)
  then show ?case by (auto simp: expected_failure_def split: if_splits)
next
  case (2 env st)
  then show ?case by (auto simp: expected_failure_def)
next
  case (3 env st i "is")
  obtain m1 r1 where l1: "lookup env st i = (m1, r1)" by (cases "lookup env st i")
  show ?case
  proof (cases r1)
    case (Inl e)
    with l1 "3.prems" "3.IH"(1) [of m1] show ?thesis by simp
  next
    case (Inr res)
    with l1 "3.prems"(2) have c: "candidates st res" by (simp add: candidates_lookup_loops(1))
    show ?thesis
    proof (cases "res = []")
      case True
      with l1 Inr "3.prems" show ?thesis by simp
    next
      case False
      obtain m2 r2 where l2: "conjunction_loop env st res is = (m2, r2)"
        by (cases "conjunction_loop env st res is")
      with l1 Inr False "3.prems" have "r2 = Inl err" by simp
      with "3.IH"(2) [OF l1 [symmetric] Inr False c] l2 "3.prems"(2) show ?thesis by simp
    qed
  qed
next
  case (4 env st x)
  then show ?case by (simp add: candidates_Nil)
next
  case (5 env st e)
  then show ?case by simp
next
  case (6 env st x)
  then show ?case by (simp add: failure_extract_expr)
next
  case (7 env st result)
  then show ?case by simp
next
  case (8 env st result i "is")
  obtain m1 r1 where l1: "lookup env st i = (m1, r1)" by (cases "lookup env st i")
  show ?case
  proof (cases r1)
    case (Inl e)
    with l1 "8.prems" "8.IH"(1) [of m1] show ?thesis by simp
  next
    case (Inr xs)
    show ?thesis
    proof (cases "xs = []")
      case True
      with l1 Inr "8.prems" show ?thesis by simp
    next
      case False
      let ?res = "inplace_intersect result xs"
      have c': "candidates st ?res" using "8.prems"(1) by (rule candidates_intersect)
      then have srt: "\<not> (assertions env \<and> \<not> sorted ?res)" by (simp add: candidates_def)
      obtain m2 r2 where l2: "conjunction_loop env st ?res is = (m2, r2)"
        by (cases "conjunction_loop env st ?res is")
      with l1 Inr False srt "8.prems"(2) have "r2 = Inl err" by (auto simp: Let_def)
      with "8.IH"(2) [OF l1 [symmetric] Inr False refl srt c'] l2 "8.prems"(3) show ?thesis by simp
    qed
  qed
next
  case (9 env st result)
  then show ?case by simp
next
  case (10 env st result i "is")
  obtain m1 r1 where l1: "lookup env st i = (m1, r1)" by (cases "lookup env st i")
  show ?case
  proof (cases r1)
    case (Inl e)
    with l1 "10.prems" "10.IH"(1) [of m1] show ?thesis by simp
  next
    case (Inr xs)
    with l1 "10.prems"(3) have c: "candidates st xs" by (simp add: candidates_lookup_loops(1))
    then have sx: "\<not> (assertions env \<and> \<not> sorted xs)" by (simp add: candidates_def)
    show ?thesis
    proof (cases "length xs = length (synopses st)")
      case True
      with l1 Inr "10.prems" sx show ?thesis by auto
    next
      case False
      let ?res = "inplace_unify result xs"
      have c': "candidates st ?res" using "10.prems"(1) c by (rule candidates_unify)
      then have srt: "\<not> (assertions env \<and> \<not> sorted ?res)" by (simp add: candidates_def)
      obtain m2 r2 where l2: "disjunction_loop env st ?res is = (m2, r2)"
        by (cases "disjunction_loop env st ?res is")
      with l1 Inr False sx srt "10.prems"(2) have "r2 = Inl err" by (auto simp: Let_def)
      with "10.IH"(2) [OF l1 [symmetric] Inr sx False refl srt c'] l2 "10.prems"(3) show ?thesis by simp
    qed
  qed
qed

lemma lookup_not_processable:
  assumes "\<not> processable (lhs x) (rhs x)"
  shows "lookup env st (predicate_expr x)
           = ([warn_cannot_process_predicate x], Inr (all_partitions st))"
proof (cases "rhs x")
  case (data_operand d)
  with assms show ?thesis
    by (cases "lhs x") (simp_all add: processable_def)
qed (cases "lhs x"; simp)+

lemma all_partitions_widest:
  assumes "wf_state st" and "lookup env st e = (msgs, Inr r)"
  shows "set r \<subseteq> set (all_partitions st)"
  using candidates_lookup_loops(1) [OF assms]
  by (simp add: candidates_def all_partitions_def partition_ids_def)

lemma length_all_partitions: "length (all_partitions st) = length (synopses st)"
  by (simp add: all_partitions_def)

lemma sorted_all_partitions: "sorted (all_partitions st)"
  by (simp add: all_partitions_def)

lemma lookup_none_operand_debug:
  assumes "assertions env"
  shows "lookup env st none_t = ([], Inl (assertion_failed expr_not_none))"
    and "lookup env st (conjunction (none_t # es)) = ([], Inl (assertion_failed expr_not_none))"
    and "lookup env st (disjunction (none_t # es)) = ([], Inl (assertion_failed expr_not_none))"
  using assms by simp_all

lemma lookup_none_operand_release:
  assumes "\<not> assertions env"
  shows "lookup env st none_t = ([error_empty_expression], Inr (all_partitions st))"
    and "lookup env st (disjunction (none_t # es))
          = ([error_empty_expression], Inr (all_partitions st))"
  using assms by (simp_all add: length_all_partitions)

section \<open>The claims\<close>

subsection \<open>Claim C1\<close>

text \<open>
  Claim C1. For a predicate whose left-hand side is a field extractor or a type
  extractor and whose right-hand side is a datum, the lookup returns a list, logs
  nothing, and the list holds a partition if and only if one of the fields of that
  partition which the extractor selects is accepted: by its own synopsis if it has
  one, otherwise by the synopsis of its type without attributes, otherwise
  unconditionally, where a synopsis accepts unless it answers \<open>Some False\<close>. A field
  that is rejected does not end the scan of the partition. (With assertions compiled
  in, a type extractor that holds no concrete type must carry a name.)
\<close>

theorem lookup_selects_accepted_fields:
  assumes "l = field_extractor s
         \<or> (l = type_extractor t \<and> \<not> (assertions env \<and> kind t = none_type \<and> name t = []))"
  shows "\<exists>r. lookup env st (predicate_expr (predicate l oper (data_operand d))) = ([], Inr r)
       \<and> (\<forall>p. p \<in> set r \<longleftrightarrow>
            (\<exists>part_syn. (p, part_syn) \<in> set (synopses st) \<and>
               (\<exists>entry \<in> set (field_synopses part_syn).
                  field_matches env l (fst entry) \<and> accepted part_syn oper d entry)))"
  using assms
proof
  assume l: "l = field_extractor s"
  from lookup_field_extractor [of env st s oper d] show ?thesis
    unfolding l field_matches_field selects_iff by blast
next
  assume "l = type_extractor t \<and> \<not> (assertions env \<and> kind t = none_type \<and> name t = [])"
  then have l: "l = type_extractor t"
    and ok: "\<not> (assertions env \<and> kind t = none_type \<and> name t = [])" by simp_all
  from lookup_type_extractor [OF ok, of st oper d] show ?thesis
    unfolding l field_matches_type selects_iff by blast
qed

theorem lookup_selects_accepted_fields_witness:
  "lookup debug_build example_state
      (predicate_expr (predicate (field_extractor ''orig_p'') op_less (data_operand (d_count 100))))
     = ([], Inr [10, 12])
   \<and> (\<forall>p. p \<in> set [10, 12] \<longleftrightarrow>
            (\<exists>part_syn. (p, part_syn) \<in> set (synopses example_state) \<and>
               (\<exists>entry \<in> set (field_synopses part_syn).
                  field_matches debug_build (field_extractor ''orig_p'') (fst entry)
                  \<and> accepted part_syn op_less (d_count 100) entry)))"
proof -
  have l: "lookup debug_build example_state
      (predicate_expr (predicate (field_extractor ''orig_p'') op_less (data_operand (d_count 100))))
     = ([], Inr [10, 12])"
    by code_simp
  from lookup_selects_accepted_fields [of "field_extractor ''orig_p''" "''orig_p''" _ debug_build
      example_state op_less "d_count 100"]
  show ?thesis unfolding l by simp
qed

subsection \<open>Claim C2\<close>

text \<open>
  Claim C2. In a state whose keys are unique, every list the lookup returns is
  strictly ascending: sorted and free of duplicates. The lookup returns a list on
  every supported expression.
\<close>

theorem lookup_strictly_ascending:
  assumes "wf_state st"
  shows "(supported e \<longrightarrow> returns (lookup env st e))
       \<and> (\<forall>msgs r. lookup env st e = (msgs, Inr r) \<longrightarrow> sorted_wrt (<) r)"
  using assms returns_lookup_loops(1) [of st e env] candidates_lookup_loops(1) [of st env e]
  by (simp add: candidates_def strict_sorted_iff)

theorem lookup_strictly_ascending_witness:
  "wf_state example_state
   \<and> supported (conjunction
        [disjunction
           [predicate_expr (predicate (field_extractor ''orig_h'') op_equal (data_operand (d_address 1))),
            predicate_expr (predicate (field_extractor ''orig_h'') op_equal (data_operand (d_address 3)))],
         negation none_t])
   \<and> lookup debug_build example_state (conjunction
        [disjunction
           [predicate_expr (predicate (field_extractor ''orig_h'') op_equal (data_operand (d_address 1))),
            predicate_expr (predicate (field_extractor ''orig_h'') op_equal (data_operand (d_address 3)))],
         negation none_t]) = ([], Inr [10, 12])
   \<and> sorted_wrt (<) [10, 12 :: uuid]"
proof -
  let ?e = "conjunction
        [disjunction
           [predicate_expr (predicate (field_extractor ''orig_h'') op_equal (data_operand (d_address 1))),
            predicate_expr (predicate (field_extractor ''orig_h'') op_equal (data_operand (d_address 3)))],
         negation none_t]"
  have wf: "wf_state example_state" by code_simp
  have s: "supported ?e" by (simp add: supported_predicate_def)
  have l: "lookup debug_build example_state ?e = ([], Inr [10, 12])" by code_simp
  from lookup_strictly_ascending [OF wf, of ?e debug_build] l
  have "sorted_wrt (<) [10, 12 :: uuid]" by blast
  with wf s l show ?thesis by blast
qed

subsection \<open>Claim C3\<close>

text \<open>
  Claim C3. The lookup of a negation returns \<^verbatim>\<open>all_partitions()\<close>, the sorted list
  of the keys of \<^verbatim>\<open>synopses\<close>, whatever the operand is and without evaluating it;
  so it holds every partition the lookup of the operand leaves out.
\<close>

theorem negation_returns_all_partitions:
  "lookup env st (negation e) = ([], Inr (all_partitions st))
   \<and> sorted (all_partitions st)
   \<and> set (all_partitions st) = set (partition_ids st)
   \<and> set (all_partitions st) - result_set (lookup env st e)
       \<subseteq> result_set (lookup env st (negation e))"
  by (auto simp: all_partitions_def partition_ids_def result_set_def)

theorem negation_returns_all_partitions_witness:
  "lookup debug_build example_state (negation none_t) = ([], Inr [10, 11, 12, 13])
   \<and> all_partitions example_state = [10, 11, 12, 13]"
proof -
  have "all_partitions example_state = [10, 11, 12, 13]" by code_simp
  with negation_returns_all_partitions [of debug_build example_state none_t]
  show ?thesis by simp
qed

subsection \<open>Claim C4\<close>

text \<open>
  Claim C4. In a state whose keys are unique, when the lookups of \<open>e1\<close> and \<open>e2\<close>
  return lists, the lookup of their disjunction returns the sorted list without
  duplicates of the union of the two. The loop over the operands starts from the
  empty list; an operand whose list is as long as \<^verbatim>\<open>synopses\<close> ends it with that
  list, whatever the loop holds; any other operand has its list united in place
  with what the loop holds.
\<close>

theorem disjunction_is_union:
  assumes "wf_state st"
    and "lookup env st e1 = (m1, Inr r1)" and "lookup env st e2 = (m2, Inr r2)"
  shows "(\<exists>m. lookup env st (disjunction [e1, e2])
              = (m, Inr (sorted_list_of_set (set r1 \<union> set r2))))
       \<and> lookup env st (disjunction []) = ([], Inr [])
       \<and> (length r1 = length (synopses st)
            \<longrightarrow> disjunction_loop env st acc (e1 # es) = (m1, Inr r1)
              \<and> lookup env st (disjunction (e1 # es)) = (m1, Inr r1))
       \<and> (length r1 \<noteq> length (synopses st) \<and> candidates st acc
            \<longrightarrow> disjunction_loop env st acc (e1 # es)
                = (case disjunction_loop env st (inplace_unify acc r1) es of
                     (m', out) \<Rightarrow> (m1 @ m', out)))"
proof -
  from assms have c1: "candidates st r1" and c2: "candidates st r2"
    by (simp_all add: candidates_lookup_loops(1))
  note s1 = candidates_sorted [OF c1] and s2 = candidates_sorted [OF c2]
  have short: "disjunction_loop env st acc (e1 # es) = (m1, Inr r1)"
    if "length r1 = length (synopses st)" for es acc
    using disjunction_loop_short_circuit [OF assms(2) s1 that] .
  have step: "disjunction_loop env st acc (e1 # es)
                = (case disjunction_loop env st (inplace_unify acc r1) es of
                     (m', out) \<Rightarrow> (m1 @ m', out))"
    if n: "length r1 \<noteq> length (synopses st)" and acc: "candidates st acc"
  proof -
    obtain m' out where l: "disjunction_loop env st (inplace_unify acc r1) es = (m', out)"
      by (cases "disjunction_loop env st (inplace_unify acc r1) es")
    from candidates_unify [OF acc c1] have "sorted (inplace_unify acc r1)"
      by (rule candidates_sorted)
    from disjunction_loop_step [OF assms(2) s1 n this l] l show ?thesis by simp
  qed
  have "\<exists>m. lookup env st (disjunction [e1, e2])
              = (m, Inr (sorted_list_of_set (set r1 \<union> set r2)))"
  proof (cases "length r1 = length (synopses st)")
    case True
    from candidates_full [OF assms(1) c1 True] candidates_subset [OF c2]
    have "set r1 = set r1 \<union> set r2" by blast
    from candidates_eq_sorted_list [OF c1 this] short [OF True, of "[]" "[e2]"]
    show ?thesis by simp
  next
    case n1: False
    from c1 have u1: "inplace_unify [] r1 = r1"
      by (simp add: inplace_unify_Nil candidates_def)
    show ?thesis
    proof (cases "length r2 = length (synopses st)")
      case True
      from candidates_full [OF assms(1) c2 True] candidates_subset [OF c1]
      have "set r2 = set r1 \<union> set r2" by blast
      from candidates_eq_sorted_list [OF c2 this]
      have eq: "sorted_list_of_set (set r1 \<union> set r2) = r2" .
      have "disjunction_loop env st r1 [e2] = (m2, Inr r2)"
        using disjunction_loop_short_circuit [OF assms(3) s2 True] .
      with disjunction_loop_step [OF assms(2) s1 n1, of "[]" "[e2]" m2 "Inr r2"] u1 s1
      have "lookup env st (disjunction [e1, e2]) = (m1 @ m2, Inr r2)" by simp
      with eq show ?thesis by simp
    next
      case n2: False
      let ?u = "inplace_unify r1 r2"
      have cu: "candidates st ?u" using c1 c2 by (rule candidates_unify)
      have "set ?u = set r1 \<union> set r2" by (rule set_inplace_unify)
      from candidates_eq_sorted_list [OF cu this]
      have eq: "sorted_list_of_set (set r1 \<union> set r2) = ?u" .
      have "disjunction_loop env st ?u [] = ([], Inr ?u)" by simp
      from disjunction_loop_step [OF assms(3) s2 n2 candidates_sorted [OF cu] this]
      have "disjunction_loop env st r1 [e2] = (m2 @ [], Inr ?u)" .
      with disjunction_loop_step [OF assms(2) s1 n1, of "[]" "[e2]" "m2 @ []" "Inr ?u"] u1 s1
      have "lookup env st (disjunction [e1, e2]) = (m1 @ m2 @ [], Inr ?u)" by simp
      with eq show ?thesis by simp
    qed
  qed
  moreover have "lookup env st (disjunction []) = ([], Inr [])" by simp
  moreover have "lookup env st (disjunction (e1 # es)) = (m1, Inr r1)"
    if "length r1 = length (synopses st)"
    using short [OF that, of "[]" es] by simp
  ultimately show ?thesis using short [of acc es] step by blast
qed

theorem disjunction_is_union_witness:
  "wf_state example_state
   \<and> lookup debug_build example_state
        (predicate_expr (predicate (field_extractor ''orig_h'') op_equal (data_operand (d_address 3))))
       = ([], Inr [12])
   \<and> lookup debug_build example_state
        (predicate_expr (predicate (field_extractor ''orig_h'') op_equal (data_operand (d_address 1))))
       = ([], Inr [10])
   \<and> lookup debug_build example_state (disjunction
        [predicate_expr (predicate (field_extractor ''orig_h'') op_equal (data_operand (d_address 3))),
         predicate_expr (predicate (field_extractor ''orig_h'') op_equal (data_operand (d_address 1)))])
       = ([], Inr [10, 12])
   \<and> (\<exists>m. lookup debug_build example_state (disjunction
        [predicate_expr (predicate (field_extractor ''orig_h'') op_equal (data_operand (d_address 3))),
         predicate_expr (predicate (field_extractor ''orig_h'') op_equal (data_operand (d_address 1)))])
       = (m, Inr (sorted_list_of_set (set [12] \<union> set [10]))))"
proof -
  let ?e1 = "predicate_expr (predicate (field_extractor ''orig_h'') op_equal (data_operand (d_address 3)))"
  let ?e2 = "predicate_expr (predicate (field_extractor ''orig_h'') op_equal (data_operand (d_address 1)))"
  have wf: "wf_state example_state" by code_simp
  have l1: "lookup debug_build example_state ?e1 = ([], Inr [12])" by code_simp
  have l2: "lookup debug_build example_state ?e2 = ([], Inr [10])" by code_simp
  have l: "lookup debug_build example_state (disjunction [?e1, ?e2]) = ([], Inr [10, 12])"
    by code_simp
  from disjunction_is_union [OF wf l1 l2] wf l1 l2 l show ?thesis by blast
qed

subsection \<open>Claim C5\<close>

text \<open>
  Claim C5. In a state whose keys are unique, when the lookups of \<open>e1\<close> and \<open>e2\<close>
  return lists, the lookup of their conjunction returns a list within the
  intersection of the two. The loop over the operands starts from the list of the
  first; an empty list, of the first operand or of a later one, ends it with the
  empty list; any other operand has its list intersected in place with what the
  loop holds.
\<close>

theorem conjunction_within_intersection:
  assumes "wf_state st"
    and "lookup env st e1 = (m1, Inr r1)" and "lookup env st e2 = (m2, Inr r2)"
  shows "(\<exists>m r. lookup env st (conjunction [e1, e2]) = (m, Inr r)
            \<and> set r \<subseteq> set r1 \<inter> set r2
            \<and> (r1 = [] \<or> r2 = [] \<longrightarrow> r = [])
            \<and> (r1 \<noteq> [] \<and> r2 \<noteq> [] \<longrightarrow> r = inplace_intersect r1 r2))
       \<and> lookup env st (conjunction (e1 # es))
           = (if r1 = [] then (m1, Inr [])
              else case conjunction_loop env st r1 es of (m', out) \<Rightarrow> (m1 @ m', out))
       \<and> (r2 = [] \<longrightarrow> conjunction_loop env st acc (e2 # es) = (m2, Inr []))
       \<and> (r2 \<noteq> [] \<and> candidates st acc
            \<longrightarrow> conjunction_loop env st acc (e2 # es)
                = (case conjunction_loop env st (inplace_intersect acc r2) es of
                     (m', out) \<Rightarrow> (m2 @ m', out)))"
proof -
  from assms have c1: "candidates st r1" and c2: "candidates st r2"
    by (simp_all add: candidates_lookup_loops(1))
  have start: "lookup env st (conjunction (e1 # es))
           = (if r1 = [] then (m1, Inr [])
              else case conjunction_loop env st r1 es of (m', out) \<Rightarrow> (m1 @ m', out))" for es
    using assms(2) by simp
  have short: "conjunction_loop env st acc (e2 # es) = (m2, Inr [])" if "r2 = []" for acc es
    using assms(3) that by (simp add: conjunction_loop_short_circuit)
  have step: "conjunction_loop env st acc (e2 # es)
                = (case conjunction_loop env st (inplace_intersect acc r2) es of
                     (m', out) \<Rightarrow> (m2 @ m', out))"
    if n: "r2 \<noteq> []" and acc: "candidates st acc" for acc es
  proof -
    obtain m' out where l: "conjunction_loop env st (inplace_intersect acc r2) es = (m', out)"
      by (cases "conjunction_loop env st (inplace_intersect acc r2) es")
    from candidates_intersect [OF acc] have "sorted (inplace_intersect acc r2)"
      by (rule candidates_sorted)
    from conjunction_loop_step [OF assms(3) n this l] l show ?thesis by simp
  qed
  have "\<exists>m r. lookup env st (conjunction [e1, e2]) = (m, Inr r)
            \<and> set r \<subseteq> set r1 \<inter> set r2
            \<and> (r1 = [] \<or> r2 = [] \<longrightarrow> r = [])
            \<and> (r1 \<noteq> [] \<and> r2 \<noteq> [] \<longrightarrow> r = inplace_intersect r1 r2)"
  proof (cases "r1 = []")
    case True
    with start [of "[e2]"] show ?thesis by simp
  next
    case n1: False
    show ?thesis
    proof (cases "r2 = []")
      case True
      with start [of "[e2]"] n1 short [OF True, of r1 "[]"]
      have "lookup env st (conjunction [e1, e2]) = (m1 @ m2, Inr [])" by simp
      with True show ?thesis by simp
    next
      case n2: False
      from start [of "[e2]"] n1 step [OF n2 c1, of "[]"]
      have "lookup env st (conjunction [e1, e2]) = (m1 @ m2 @ [], Inr (inplace_intersect r1 r2))"
        by simp
      with n1 n2 set_inplace_intersect_subset [of r1 r2] show ?thesis by simp
    qed
  qed
  with start [of es] short [of acc es] step [of acc es] show ?thesis by blast
qed

theorem conjunction_within_intersection_witness:
  "wf_state example_state
   \<and> lookup debug_build example_state
        (predicate_expr (predicate (field_extractor ''orig_p'') op_less (data_operand (d_count 100))))
       = ([], Inr [10, 12])
   \<and> lookup debug_build example_state
        (predicate_expr (predicate (field_extractor ''orig_h'') op_equal (data_operand (d_address 1))))
       = ([], Inr [10])
   \<and> lookup debug_build example_state (conjunction
        [predicate_expr (predicate (field_extractor ''orig_p'') op_less (data_operand (d_count 100))),
         predicate_expr (predicate (field_extractor ''orig_h'') op_equal (data_operand (d_address 1)))])
       = ([], Inr [10])
   \<and> set [10 :: uuid] \<subseteq> set [10, 12] \<inter> set [10]"
proof -
  let ?e1 = "predicate_expr (predicate (field_extractor ''orig_p'') op_less (data_operand (d_count 100)))"
  let ?e2 = "predicate_expr (predicate (field_extractor ''orig_h'') op_equal (data_operand (d_address 1)))"
  have wf: "wf_state example_state" by code_simp
  have l1: "lookup debug_build example_state ?e1 = ([], Inr [10, 12])" by code_simp
  have l2: "lookup debug_build example_state ?e2 = ([], Inr [10])" by code_simp
  have l: "lookup debug_build example_state (conjunction [?e1, ?e2]) = ([], Inr [10])"
    by code_simp
  from conjunction_within_intersection [OF wf l1 l2] l
  have "set [10 :: uuid] \<subseteq> set [10, 12] \<inter> set [10]" by auto
  with wf l1 l2 l show ?thesis by blast
qed

subsection \<open>Claim C6\<close>

text \<open>
  The rule of claim C6 as the specification words it fails on a queried type that
  is concrete and has a display name: partition 12 has a field of the type
  \<open>port\<close>, a count named \<open>port\<close>, without any synopsis, so by the worded rule the
  field matches by name and the partition is selected; the lookup returns no
  partition.
\<close>

theorem type_extractor_rule_counterexample:
  "\<not> (12 \<in> result_set (lookup debug_build example_state
          (predicate_expr (predicate (type_extractor (vtype ''port'' [] count_type)) op_equal
             (data_operand (d_count 53)))))
      \<longleftrightarrow> selects (spec_type_matches debug_build (vtype ''port'' [] count_type))
            example_state op_equal (d_count 53) 12)"
proof -
  have "lookup debug_build example_state
          (predicate_expr (predicate (type_extractor (vtype ''port'' [] count_type)) op_equal
             (data_operand (d_count 53)))) = ([], Inr [])"
    by code_simp
  moreover have "selects (spec_type_matches debug_build (vtype ''port'' [] count_type))
            example_state op_equal (d_count 53) 12"
    by code_simp
  ultimately show ?thesis by (simp add: result_set_Inr)
qed

text \<open>
  Claim C6, as the code has it. For a predicate whose left-hand side is a type
  extractor with the queried type \<open>t\<close>, the rule that selects fields turns on
  whether \<open>t\<close> holds a concrete type, not on whether it has a display name: if
  \<open>t\<close> holds none (it then carries only a name, which must not be empty when
  assertions are compiled in), a field matches exactly when the name of its type is
  the name of \<open>t\<close>; otherwise a field matches exactly when its type equals \<open>t\<close>
  and the name of its type is empty. In addition, when the name of \<open>t\<close> is
  \<open>timestamp\<close>, every field whose type carries the attribute \<open>timestamp\<close>
  matches.
\<close>

theorem type_extractor_rule:
  assumes "\<not> (assertions env \<and> kind t = none_type \<and> name t = [])"
  shows "\<exists>r. lookup env st (predicate_expr (predicate (type_extractor t) oper (data_operand d)))
            = ([], Inr r)
       \<and> (\<forall>p. p \<in> set r \<longleftrightarrow>
            (\<exists>part_syn. (p, part_syn) \<in> set (synopses st) \<and>
               (\<exists>entry \<in> set (field_synopses part_syn).
                  accepted part_syn oper d entry \<and>
                  ((if kind t = none_type then name (ftype (fst entry)) = name t
                    else type_equal env (ftype (fst entry)) t \<and> name (ftype (fst entry)) = [])
                   \<or> (name t = ''timestamp'' \<and> has_attribute (ftype (fst entry)) ''timestamp'')))))"
proof -
  from lookup_type_extractor [OF assms, of st oper d] obtain r where
    r: "lookup env st (predicate_expr (predicate (type_extractor t) oper (data_operand d)))
            = ([], Inr r)"
    and iff: "\<And>p. p \<in> set r \<longleftrightarrow> selects (type_matches env t) st oper d p"
    by blast
  have "p \<in> set r \<longleftrightarrow>
            (\<exists>part_syn. (p, part_syn) \<in> set (synopses st) \<and>
               (\<exists>entry \<in> set (field_synopses part_syn).
                  accepted part_syn oper d entry \<and>
                  ((if kind t = none_type then name (ftype (fst entry)) = name t
                    else type_equal env (ftype (fst entry)) t \<and> name (ftype (fst entry)) = [])
                   \<or> (name t = ''timestamp'' \<and> has_attribute (ftype (fst entry)) ''timestamp''))))"
    for p
    unfolding iff selects_iff type_matches_def by blast
  with r show ?thesis by blast
qed

theorem type_extractor_rule_witness:
  "\<not> (assertions debug_build \<and> kind (vtype ''timestamp'' [] none_type) = none_type
        \<and> name (vtype ''timestamp'' [] none_type) = [])
   \<and> lookup debug_build example_state
        (predicate_expr (predicate (type_extractor (vtype ''timestamp'' [] none_type)) op_equal
           (data_operand (d_time 0)))) = ([], Inr [11])
   \<and> (\<forall>p. p \<in> set [11] \<longleftrightarrow>
            (\<exists>part_syn. (p, part_syn) \<in> set (synopses example_state) \<and>
               (\<exists>entry \<in> set (field_synopses part_syn).
                  accepted part_syn op_equal (d_time 0) entry \<and>
                  ((if kind (vtype ''timestamp'' [] none_type) = none_type
                    then name (ftype (fst entry)) = name (vtype ''timestamp'' [] none_type)
                    else type_equal debug_build (ftype (fst entry)) (vtype ''timestamp'' [] none_type)
                         \<and> name (ftype (fst entry)) = [])
                   \<or> (name (vtype ''timestamp'' [] none_type) = ''timestamp''
                      \<and> has_attribute (ftype (fst entry)) ''timestamp'')))))"
proof -
  have ok: "\<not> (assertions debug_build \<and> kind (vtype ''timestamp'' [] none_type) = none_type
        \<and> name (vtype ''timestamp'' [] none_type) = [])"
    by simp
  have l: "lookup debug_build example_state
        (predicate_expr (predicate (type_extractor (vtype ''timestamp'' [] none_type)) op_equal
           (data_operand (d_time 0)))) = ([], Inr [11])"
    by code_simp
  from type_extractor_rule [OF ok, of example_state op_equal "d_time 0"]
  show ?thesis unfolding l using ok by blast
qed

subsection \<open>Claim C7\<close>

text \<open>
  Claim C7. For a predicate whose left-hand side is the meta extractor of kind field
  and whose right-hand side is a datum: if the datum is not a string the lookup logs
  a warning and returns the empty list; if it is the string \<open>s\<close> the lookup returns
  a sorted list that holds a partition exactly when \<open>\<not> is_negated op\<close> equals the
  existence of a field of the partition whose fully-qualified name ends with \<open>s\<close>.
\<close>

theorem meta_field_lookup:
  "(get_if_string d = None \<longrightarrow>
      lookup env st (predicate_expr (predicate (meta_extractor meta_field) oper (data_operand d)))
        = ([warn_field_meta_query_string_only], Inr []))
   \<and> (\<exists>r. lookup env st
             (predicate_expr (predicate (meta_extractor meta_field) oper (data_operand (d_string s))))
            = ([], Inr r)
          \<and> sorted r
          \<and> (\<forall>p. p \<in> set r \<longleftrightarrow>
                (\<exists>part_syn. (p, part_syn) \<in> set (synopses st) \<and>
                   ((\<not> is_negated oper)
                    = (\<exists>entry \<in> set (field_synopses part_syn). ends_with (fqn (fst entry)) s)))))"
  using lookup_meta_field_other [of d env st oper] lookup_meta_field_string [of env st oper s]
  by blast

theorem meta_field_lookup_witness:
  "lookup debug_build example_state
      (predicate_expr (predicate (meta_extractor meta_field) op_equal (data_operand (d_count 4))))
     = ([warn_field_meta_query_string_only], Inr [])
   \<and> lookup debug_build example_state
      (predicate_expr (predicate (meta_extractor meta_field) op_not_equal
         (data_operand (d_string ''query''))))
     = ([], Inr [10, 12, 13])
   \<and> (\<forall>p. p \<in> set [10, 12, 13] \<longleftrightarrow>
                (\<exists>part_syn. (p, part_syn) \<in> set (synopses example_state) \<and>
                   ((\<not> is_negated op_not_equal)
                    = (\<exists>entry \<in> set (field_synopses part_syn).
                         ends_with (fqn (fst entry)) ''query''))))"
proof -
  have l: "lookup debug_build example_state
      (predicate_expr (predicate (meta_extractor meta_field) op_not_equal
         (data_operand (d_string ''query''))))
     = ([], Inr [10, 12, 13])"
    by code_simp
  from meta_field_lookup [of "d_count 4" debug_build example_state op_equal]
  have w: "lookup debug_build example_state
      (predicate_expr (predicate (meta_extractor meta_field) op_equal (data_operand (d_count 4))))
     = ([warn_field_meta_query_string_only], Inr [])"
    by simp
  from meta_field_lookup [of "d_count 4" debug_build example_state op_not_equal "''query''"]
  show ?thesis unfolding l using w by simp
qed

subsection \<open>Claim C8\<close>

text \<open>
  Claim C8 as worded fails on three counts. With assertions compiled out the lookup
  of the empty expression returns a list. With assertions compiled in a conjunction
  without operands, which is not the empty expression, aborts as well. And the
  meta extractor of kind field with a datum that is not a string is answered with
  the empty list, which leaves out partition 10 although the name of one of its
  fields differs from the datum: that answer is no over-approximation.
\<close>

theorem empty_expression_counterexample:
  "returns (lookup release_build example_state none_t)
   \<and> lookup debug_build example_state (conjunction [])
       = ([], Inl (assertion_failed conjunction_not_empty))
   \<and> lookup release_build example_state
        (predicate_expr (predicate (meta_extractor meta_field) op_not_equal
           (data_operand (d_count 4))))
       = ([warn_field_meta_query_string_only], Inr [])
   \<and> evaluate release_build (d_string (fqn orig_h)) op_not_equal (d_count 4)"
  by (simp add: release_build_def debug_build_def equality_evaluate_def)

text \<open>
  Claim C8, as the code has it. The lookup has no error to hand to its caller: it
  returns a list or it aborts. On the empty expression, at the root or as the first
  operand of a conjunction or a disjunction, it aborts on the assertion at its entry
  when assertions are compiled in; when they are compiled out it logs an error and
  returns all partitions, which also ends a disjunction. In a state whose keys are
  unique, a lookup with assertions compiled in aborts on no assertion but the three
  on the expression itself (empty expression, conjunction without operand, type
  extractor with neither a concrete type nor a name), and so on no supported
  expression; with assertions compiled out it fails only by leaving defined
  behaviour. Every other diagnostic condition is absorbed: a predicate whose operands
  the lookup cannot process is logged with a warning and answered with all
  partitions, the over-approximation that holds every list a lookup returns; the
  meta extractor of kind field with a datum that is not a string is logged with a
  warning and answered with the empty list.
\<close>

theorem empty_expression_lookup:
  assumes "wf_state st"
  shows "(assertions env \<longrightarrow>
            lookup env st none_t = ([], Inl (assertion_failed expr_not_none))
          \<and> lookup env st (conjunction (none_t # es))
              = ([], Inl (assertion_failed expr_not_none))
          \<and> lookup env st (disjunction (none_t # es))
              = ([], Inl (assertion_failed expr_not_none)))
       \<and> (\<not> assertions env \<longrightarrow>
            lookup env st none_t = ([error_empty_expression], Inr (all_partitions st))
          \<and> lookup env st (disjunction (none_t # es))
              = ([error_empty_expression], Inr (all_partitions st)))
       \<and> (\<forall>msgs err. lookup env st e = (msgs, Inl err) \<longrightarrow> expected_failure env err)
       \<and> (\<not> returns (lookup env st e) \<longrightarrow> \<not> supported e)
       \<and> (\<forall>msgs r. lookup env st e = (msgs, Inr r) \<longrightarrow> set r \<subseteq> set (all_partitions st))
       \<and> (\<not> processable (lhs x) (rhs x) \<longrightarrow>
            lookup env st (predicate_expr x)
              = ([warn_cannot_process_predicate x], Inr (all_partitions st)))
       \<and> (get_if_string d = None \<longrightarrow>
            lookup env st
              (predicate_expr (predicate (meta_extractor meta_field) oper (data_operand d)))
              = ([warn_field_meta_query_string_only], Inr []))"
proof -
  have fail: "\<forall>msgs err. lookup env st e = (msgs, Inl err) \<longrightarrow> expected_failure env err"
    using failure_lookup_loops(1) [OF assms, of env e] by blast
  have total: "\<not> returns (lookup env st e) \<longrightarrow> \<not> supported e"
    using returns_lookup_loops(1) [OF assms, of e env] by blast
  have widest: "\<forall>msgs r. lookup env st e = (msgs, Inr r) \<longrightarrow> set r \<subseteq> set (all_partitions st)"
    using all_partitions_widest [OF assms, of env e] by blast
  have generic: "\<not> processable (lhs x) (rhs x) \<longrightarrow>
            lookup env st (predicate_expr x)
              = ([warn_cannot_process_predicate x], Inr (all_partitions st))"
    using lookup_not_processable [of x env st] by blast
  have mistyped: "get_if_string d = None \<longrightarrow>
            lookup env st
              (predicate_expr (predicate (meta_extractor meta_field) oper (data_operand d)))
              = ([warn_field_meta_query_string_only], Inr [])"
    using lookup_meta_field_other [of d env st oper] by blast
  have debug: "assertions env \<longrightarrow>
            lookup env st none_t = ([], Inl (assertion_failed expr_not_none))
          \<and> lookup env st (conjunction (none_t # es))
              = ([], Inl (assertion_failed expr_not_none))
          \<and> lookup env st (disjunction (none_t # es))
              = ([], Inl (assertion_failed expr_not_none))"
    using lookup_none_operand_debug by blast
  have release: "\<not> assertions env \<longrightarrow>
            lookup env st none_t = ([error_empty_expression], Inr (all_partitions st))
          \<and> lookup env st (disjunction (none_t # es))
              = ([error_empty_expression], Inr (all_partitions st))"
    using lookup_none_operand_release by blast
  from debug release fail total widest generic mistyped
  show ?thesis by blast
qed

theorem empty_expression_lookup_witness:
  "wf_state example_state
   \<and> lookup release_build example_state none_t
       = ([error_empty_expression], Inr [10, 11, 12, 13])
   \<and> lookup release_build example_state (disjunction [none_t, conjunction []])
       = ([error_empty_expression], Inr [10, 11, 12, 13])
   \<and> lookup debug_build example_state none_t = ([], Inl (assertion_failed expr_not_none))
   \<and> lookup debug_build example_state
        (predicate_expr (predicate (type_extractor (vtype [] [] none_type)) op_equal
           (data_operand (d_count 53))))
       = ([], Inl (assertion_failed type_name_not_empty))
   \<and> expected_failure debug_build (assertion_failed type_name_not_empty)
   \<and> \<not> supported (predicate_expr (predicate (type_extractor (vtype [] [] none_type)) op_equal
           (data_operand (d_count 53))))
   \<and> \<not> processable (data_operand (d_count 53)) (field_extractor ''orig_p'')
   \<and> lookup debug_build example_state
        (predicate_expr (predicate (data_operand (d_count 53)) op_equal
           (field_extractor ''orig_p'')))
       = ([warn_cannot_process_predicate (predicate (data_operand (d_count 53)) op_equal
             (field_extractor ''orig_p''))], Inr [10, 11, 12, 13])
   \<and> lookup debug_build example_state
        (predicate_expr (predicate (meta_extractor meta_field) op_equal
           (data_operand (d_count 4))))
       = ([warn_field_meta_query_string_only], Inr [])"
proof -
  let ?e = "predicate_expr (predicate (type_extractor (vtype [] [] none_type)) op_equal
           (data_operand (d_count 53)))"
  let ?x = "predicate (data_operand (d_count 53)) op_equal (field_extractor ''orig_p'')"
  have wf: "wf_state example_state" by code_simp
  have all: "all_partitions example_state = [10, 11, 12, 13]" by code_simp
  have rel: "\<not> assertions release_build" by (simp add: release_build_def)
  have dbg: "assertions debug_build" by (simp add: debug_build_def)
  have np: "\<not> processable (lhs ?x) (rhs ?x)" by (simp add: processable_def)
  have ns: "get_if_string (d_count 4) = None" by simp
  have l: "lookup debug_build example_state ?e = ([], Inl (assertion_failed type_name_not_empty))"
    by (simp add: debug_build_def)
  note r = empty_expression_lookup [OF wf, of release_build "[conjunction []]" ?e ?x "d_count 4" op_equal]
  note d = empty_expression_lookup [OF wf, of debug_build "[]" ?e ?x "d_count 4" op_equal]
  from r rel have r1: "lookup release_build example_state none_t
       = ([error_empty_expression], Inr [10, 11, 12, 13])"
    and r2: "lookup release_build example_state (disjunction [none_t, conjunction []])
       = ([error_empty_expression], Inr [10, 11, 12, 13])"
    unfolding all by blast+
  from d dbg have d1: "lookup debug_build example_state none_t
       = ([], Inl (assertion_failed expr_not_none))"
    by blast
  from d l have f: "expected_failure debug_build (assertion_failed type_name_not_empty)"
    by blast
  from d l have s: "\<not> supported ?e" by (simp add: returns_def)
  from d np have g: "lookup debug_build example_state (predicate_expr ?x)
       = ([warn_cannot_process_predicate ?x], Inr [10, 11, 12, 13])"
    unfolding all by blast
  from d ns have m: "lookup debug_build example_state
        (predicate_expr (predicate (meta_extractor meta_field) op_equal
           (data_operand (d_count 4))))
       = ([warn_field_meta_query_string_only], Inr [])"
    by blast
  from np have np': "\<not> processable (data_operand (d_count 53)) (field_extractor ''orig_p'')"
    by simp
  from wf r1 r2 d1 l f s np' g m show ?thesis by blast
qed

subsection \<open>Claim C9\<close>

text \<open>
  Claim C9. Every id in a list the lookup returns is a key of \<^verbatim>\<open>synopses\<close>; after a
  history of merges and erasures these are the ids merged and not erased since.
\<close>

theorem lookup_within_partition_ids:
  assumes "wf_state st" and "lookup env st e = (msgs, Inr r)"
  shows "set r \<subseteq> set (partition_ids st) \<and> (st = run ops \<longrightarrow> set r \<subseteq> set (live ops))"
  using candidates_lookup_loops(1) [OF assms] ids_run [of ops]
  by (auto simp: candidates_def)

theorem lookup_within_partition_ids_witness:
  "wf_state (run [Merge 12 partition_C, Merge 13 partition_D, Merge 10 partition_A,
       Merge 11 partition_B, Erase 12, Merge 13 partition_C])
   \<and> lookup debug_build (run [Merge 12 partition_C, Merge 13 partition_D, Merge 10 partition_A,
       Merge 11 partition_B, Erase 12, Merge 13 partition_C])
       (predicate_expr (predicate (field_extractor ''orig_p'') op_less (data_operand (d_count 100))))
      = ([], Inr [10, 13])
   \<and> live [Merge 12 partition_C, Merge 13 partition_D, Merge 10 partition_A,
       Merge 11 partition_B, Erase 12, Merge 13 partition_C] = [11, 10, 13]
   \<and> set [10, 13 :: uuid] \<subseteq> set [11, 10, 13]"
proof -
  let ?ops = "[Merge 12 partition_C, Merge 13 partition_D, Merge 10 partition_A,
       Merge 11 partition_B, Erase 12, Merge 13 partition_C]"
  let ?e = "predicate_expr (predicate (field_extractor ''orig_p'') op_less (data_operand (d_count 100)))"
  have wf: "wf_state (run ?ops)" by code_simp
  have l: "lookup debug_build (run ?ops) ?e = ([], Inr [10, 13])" by code_simp
  have lv: "live ?ops = [11, 10, 13]" by code_simp
  from lookup_within_partition_ids [OF wf l, of ?ops] lv
  have "set [10, 13 :: uuid] \<subseteq> set [11, 10, 13]" by simp
  with wf l lv show ?thesis by blast
qed

subsection \<open>Claim C10\<close>

text \<open>
  Claim C10. A partition whose \<^verbatim>\<open>field_synopses_\<close> is empty is in no list the lookup
  returns for a predicate with a field extractor, a type extractor or the meta
  extractor of kind type on the left and a datum on the right, whatever the
  operator; for the meta extractor of kind field and a string on the right it is
  in the list exactly when the operator is negated.
\<close>

theorem empty_partition_lookup:
  assumes "wf_state st" and "(p, part_syn) \<in> set (synopses st)"
    and "field_synopses part_syn = []"
  shows "(l = field_extractor s \<or> l = type_extractor t \<or> l = meta_extractor meta_type
            \<longrightarrow> p \<notin> result_set (lookup env st
                   (predicate_expr (predicate l oper (data_operand d)))))
       \<and> (\<exists>r. lookup env st (predicate_expr
                 (predicate (meta_extractor meta_field) oper (data_operand (d_string s'))))
              = ([], Inr r)
            \<and> (p \<in> set r \<longleftrightarrow> is_negated oper))"
proof -
  have field: "p \<notin> result_set (lookup env st
      (predicate_expr (predicate (field_extractor s) oper (data_operand d))))"
    using lookup_field_extractor [of env st s oper d] not_selects_empty [OF assms]
    by (auto simp: result_set_Inr)
  have type: "p \<notin> result_set (lookup env st
      (predicate_expr (predicate (type_extractor t) oper (data_operand d))))"
  proof (cases "assertions env \<and> kind t = none_type \<and> name t = []")
    case True
    then have "lookup env st (predicate_expr (predicate (type_extractor t) oper (data_operand d)))
        = ([], Inl (assertion_failed type_name_not_empty))"
      by simp
    then show ?thesis by (simp add: result_set_Inl)
  next
    case False
    from lookup_type_extractor [OF False, of st oper d] not_selects_empty [OF assms]
    show ?thesis by (auto simp: result_set_Inr)
  qed
  have meta: "p \<notin> result_set (lookup env st
      (predicate_expr (predicate (meta_extractor meta_type) oper (data_operand d))))"
  proof -
    from lookup_meta_type [of env st oper d] obtain r where
      r: "lookup env st (predicate_expr (predicate (meta_extractor meta_type) oper (data_operand d)))
          = ([], Inr r)"
      and iff: "\<And>q. q \<in> set r \<longleftrightarrow>
                (\<exists>ps. (q, ps) \<in> set (synopses st) \<and>
                   (\<exists>entry \<in> set (field_synopses ps).
                      evaluate env (d_string (layout_name (fst entry))) oper d))"
      by blast
    have "p \<notin> set r"
    proof
      assume "p \<in> set r"
      with iff obtain ps where ps: "(p, ps) \<in> set (synopses st)"
        and ex: "\<exists>entry \<in> set (field_synopses ps).
                      evaluate env (d_string (layout_name (fst entry))) oper d"
        by blast
      from unique_partition_synopsis [OF assms(1) ps assms(2)] have "ps = part_syn" .
      with ex assms(3) show False by simp
    qed
    with r show ?thesis by (simp add: result_set_Inr)
  qed
  from lookup_meta_field_string [of env st oper s'] obtain r where
    r: "lookup env st (predicate_expr
          (predicate (meta_extractor meta_field) oper (data_operand (d_string s'))))
        = ([], Inr r)"
    and iff: "\<And>q. q \<in> set r \<longleftrightarrow>
                (\<exists>ps. (q, ps) \<in> set (synopses st) \<and>
                   ((\<not> is_negated oper)
                    = (\<exists>entry \<in> set (field_synopses ps). ends_with (fqn (fst entry)) s')))"
    by blast
  have "p \<in> set r \<longleftrightarrow> is_negated oper"
  proof
    assume "p \<in> set r"
    with iff obtain ps where ps: "(p, ps) \<in> set (synopses st)"
      and eq: "(\<not> is_negated oper)
                 = (\<exists>entry \<in> set (field_synopses ps). ends_with (fqn (fst entry)) s')"
      by blast
    from unique_partition_synopsis [OF assms(1) ps assms(2)] have "ps = part_syn" .
    with eq assms(3) show "is_negated oper" by simp
  next
    assume "is_negated oper"
    with assms(2,3) iff [of p] show "p \<in> set r" by auto
  qed
  with r field type meta show ?thesis by blast
qed

theorem empty_partition_lookup_witness:
  "wf_state example_state \<and> (13, partition_D) \<in> set (synopses example_state)
   \<and> field_synopses partition_D = []
   \<and> 13 \<notin> result_set (lookup debug_build example_state
          (predicate_expr (predicate (meta_extractor meta_type) op_not_equal
             (data_operand (d_string ''dns'')))))
   \<and> lookup debug_build example_state
          (predicate_expr (predicate (meta_extractor meta_field) op_not_equal
             (data_operand (d_string ''query''))))
       = ([], Inr [10, 12, 13])
   \<and> (13 \<in> set [10, 12, 13 :: uuid] \<longleftrightarrow> is_negated op_not_equal)"
proof -
  have wf: "wf_state example_state" by code_simp
  have mem: "(13, partition_D) \<in> set (synopses example_state)"
    by (simp add: example_state_def)
  have emp: "field_synopses partition_D = []" by (simp add: partition_D_def)
  have l: "lookup debug_build example_state
          (predicate_expr (predicate (meta_extractor meta_field) op_not_equal
             (data_operand (d_string ''query''))))
       = ([], Inr [10, 12, 13])"
    by code_simp
  from empty_partition_lookup [OF wf mem emp, of "meta_extractor meta_type" _ _ debug_build
      op_not_equal "d_string ''dns''" "''query''"]
  show ?thesis using wf mem emp unfolding l by simp
qed

end
